theory Spec2Isabelle
  imports Complex_Main "HOL-Library.AList"
begin

section \<open>Python values, errors and outcomes\<close>

text \<open>
  The model follows \<^verbatim>\<open>discord/ui/view.py\<close> and \<^verbatim>\<open>discord/ui/select.py\<close>.
  Every \<^verbatim>\<open>raise\<close> of the source is a value: an operation that mutates objects returns
  \<open>Returned s\<close> with the state it leaves, or \<open>Raised e s\<close> with the exception and the
  state at the moment it was raised (a Python exception does not undo earlier writes).

  \<open>UserException\<close> stands for any exception class derived from \<^verbatim>\<open>Exception\<close> that user
  code raises, \<open>UserBaseException\<close> for one derived from \<^verbatim>\<open>BaseException\<close> only
  (\<^verbatim>\<open>SystemExit\<close>, \<^verbatim>\<open>KeyboardInterrupt\<close>, a task cancellation): \<^verbatim>\<open>except Exception\<close>
  catches the first kind and lets the second pass.
\<close>

datatype py_error =
    KeyError
  | ValueError
  | TypeError
  | InvalidStateError
  | UserException string
  | UserBaseException string

fun is_Exception :: "py_error \<Rightarrow> bool" where
  "is_Exception (UserBaseException _) = False"
| "is_Exception _ = True"

datatype 's outcome = Returned 's | Raised py_error 's

fun state_of :: "'s outcome \<Rightarrow> 's" where
  "state_of (Returned s) = s"
| "state_of (Raised _ s) = s"

fun raises :: "'s outcome \<Rightarrow> bool" where
  "raises (Returned _) = False"
| "raises (Raised _ _) = True"

section \<open>Components, interactions and select items (select.py)\<close>

text \<open>
  \<^verbatim>\<open>SelectOption\<close> and the component classes live in \<^verbatim>\<open>discord/components.py\<close>, outside
  the sources; the records carry the fields the two source files read. A component is an
  action row (it has \<^verbatim>\<open>children\<close> and no \<^verbatim>\<open>custom_id\<close> attribute) or a leaf;
  \<open>is_button\<close> is \<^verbatim>\<open>isinstance(component, ButtonComponent)\<close>, \<open>ctype\<close> is
  \<^verbatim>\<open>component.type.value\<close>, and \<open>ccustom_id\<close> is \<open>None\<close> where Python's is \<^verbatim>\<open>None\<close>.
\<close>

record select_option =
  opt_label :: string
  opt_value :: string
  opt_description :: "string option"
  opt_emoji :: "string option"
  opt_default :: bool

record leaf =
  is_button :: bool
  ctype :: int
  ccustom_id :: "string option"
  placeholder :: "string option"
  min_values :: int
  max_values :: int
  options :: "select_option list"

datatype component = ActionRowComponent "component list" | LeafComponent leaf

text \<open>
  An interaction carries \<^verbatim>\<open>interaction.data\<close>, a dict in which the key \<^verbatim>\<open>'values'\<close> may be
  absent (\<open>data_values = None\<close>), and \<^verbatim>\<open>interaction.response._responded\<close>.
\<close>

record interaction =
  data_values :: "string list option"
  responded :: bool

text \<open>
  An item is an object of class \<^verbatim>\<open>Select\<close>: \<^verbatim>\<open>_underlying\<close>, \<^verbatim>\<open>group_id\<close>,
  \<^verbatim>\<open>_selected_values\<close>, \<^verbatim>\<open>callback\<close> (the handler, named by a number) and \<^verbatim>\<open>_view\<close>
  (a reference to a view). \<^verbatim>\<open>Select.is_dispatchable\<close> returns \<^verbatim>\<open>True\<close>; the field
  \<open>dispatchable\<close> keeps the answer per object, so that the branches of view.py on
  \<^verbatim>\<open>item.is_dispatchable()\<close> are also modelled for items of the classes outside the sources.
\<close>

record item =
  underlying :: leaf
  group_id :: "int option"
  selected_values :: "string list"
  callback :: nat
  item_view :: "nat option"
  dispatchable :: bool

type_synonym key = "int \<times> string option"

text \<open>
  \<^verbatim>\<open>Select.__init__\<close> with the custom id given (a missing one is drawn at random);
  \<^verbatim>\<open>ComponentType.select\<close> has the value 3. The handler and the view are attached later, by
  the view.
\<close>

definition select_init ::
  "string \<Rightarrow> string option \<Rightarrow> int \<Rightarrow> int \<Rightarrow> select_option list \<Rightarrow> int option \<Rightarrow> item" where
  "select_init cid ph mn mx opts grp =
     \<lparr>underlying = \<lparr>is_button = False, ctype = 3, ccustom_id = Some cid, placeholder = ph,
                     min_values = mn, max_values = mx, options = opts\<rparr>,
      group_id = grp, selected_values = [], callback = 0, item_view = None,
      dispatchable = True\<rparr>"

definition custom_id :: "item \<Rightarrow> string option" where
  "custom_id self = ccustom_id (underlying self)"

definition item_type :: "item \<Rightarrow> int" where
  "item_type self = ctype (underlying self)"

definition is_dispatchable :: "item \<Rightarrow> bool" where
  "is_dispatchable self = dispatchable self"

definition item_key :: "item \<Rightarrow> key" where
  "item_key self = (item_type self, custom_id self)"

definition append_option :: "item \<Rightarrow> select_option \<Rightarrow> item outcome" where
  "append_option self option =
     (if length (options (underlying self)) > 25 then Raised ValueError self
      else Returned (self\<lparr>underlying :=
             (underlying self)\<lparr>options := options (underlying self) @ [option]\<rparr>\<rparr>))"

text \<open>
  \<^verbatim>\<open>add_option\<close> builds the option and appends it; \<open>from_str\<close> is
  \<^verbatim>\<open>PartialEmoji.from_str\<close> (outside the sources), applied when the emoji is a string.
\<close>

datatype emoji_arg = EmojiStr string | EmojiPartial string

definition add_option ::
  "(string \<Rightarrow> string) \<Rightarrow> item \<Rightarrow> string \<Rightarrow> string \<Rightarrow> string option \<Rightarrow> emoji_arg option \<Rightarrow> bool
     \<Rightarrow> item outcome" where
  "add_option from_str self label val description emoji dflt =
     (let emoji' = (case emoji of
                      None \<Rightarrow> None
                    | Some (EmojiStr s) \<Rightarrow> Some (from_str s)
                    | Some (EmojiPartial p) \<Rightarrow> Some p);
          option = \<lparr>opt_label = label, opt_value = val, opt_description = description,
                    opt_emoji = emoji', opt_default = dflt\<rparr>
      in append_option self option)"

definition refresh_component :: "item \<Rightarrow> leaf \<Rightarrow> item" where
  "refresh_component self component = self\<lparr>underlying := component\<rparr>"

definition refresh_state :: "item \<Rightarrow> interaction \<Rightarrow> item" where
  "refresh_state self i =
     self\<lparr>selected_values := (case data_values i of None \<Rightarrow> [] | Some vs \<Rightarrow> vs)\<rparr>"

section \<open>Views (view.py)\<close>

text \<open>
  Items and views are Python objects, shared by reference between a view's
  \<^verbatim>\<open>children\<close>, the store's \<^verbatim>\<open>_views\<close> and scheduled tasks. The model keeps them in
  two heaps indexed by reference; \<open>next_item\<close> is the first reference not yet allocated.
  A view: \<^verbatim>\<open>timeout\<close>, \<^verbatim>\<open>children\<close> (references), \<^verbatim>\<open>id\<close>, whether \<^verbatim>\<open>_cancel_callback\<close>
  is set (it is \<^verbatim>\<open>store.remove_view\<close> of the one store), \<^verbatim>\<open>_timeout_handler\<close> (the delay
  of the armed timer and whether it was cancelled) and the future \<^verbatim>\<open>_stopped\<close> (its result
  once set). Times are real numbers: the clock's floating-point rounding is not modelled.
\<close>

record view =
  timeout :: "real option"
  children :: "nat list"
  view_id :: string
  cancel_callback :: bool
  timeout_handler :: "(real \<times> bool) option"
  stopped :: "bool option"

type_synonym entry = "nat \<times> nat \<times> real option"

record world =
  item_heap :: "nat \<Rightarrow> item"
  view_heap :: "nat \<Rightarrow> view"
  next_item :: nat
  views :: "key \<Rightarrow> entry option"
  synced_message_views :: "(int \<times> nat) list"
  tasks :: "(nat \<times> nat \<times> interaction) list"

subsection \<open>Declared children\<close>

text \<open>
  \<^verbatim>\<open>__init_subclass__\<close> walks the reversed MRO; each base is the list of the values of its
  \<^verbatim>\<open>__dict__\<close>, and \<open>ui_model\<close> is \<open>Some\<close> item for a member that has
  \<^verbatim>\<open>__discord_ui_model_type__\<close> (the item its model type builds from the stored keyword
  arguments).
\<close>

record member =
  member_name :: string
  ui_model :: "item option"

definition init_subclass :: "member list list \<Rightarrow> py_error + member list" where
  "init_subclass mro =
     (let children = concat (map (filter (\<lambda>m. ui_model m \<noteq> None)) (rev mro))
      in if length children > 25 then Inl TypeError else Inr children)"

subsection \<open>Layout\<close>

definition sys_maxsize :: int where
  "sys_maxsize = 9223372036854775807"

definition sort_key_of :: "item \<Rightarrow> int" where
  "sort_key_of it = (case group_id it of None \<Rightarrow> sys_maxsize | Some g \<Rightarrow> g)"

text \<open>\<^verbatim>\<open>itertools.groupby\<close>: the runs of consecutive elements with equal keys.\<close>

function groupby :: "('a \<Rightarrow> 'k) \<Rightarrow> 'a list \<Rightarrow> ('k \<times> 'a list) list" where
  "groupby f [] = []"
| "groupby f (x # xs) =
     (f x, x # takeWhile (\<lambda>y. f y = f x) xs) # groupby f (dropWhile (\<lambda>y. f y = f x) xs)"
  by pat_completeness auto
termination
  by (relation "measure (\<lambda>(f, xs). length xs)") (auto simp: less_Suc_eq_le length_dropWhile_le)

text \<open>\<^verbatim>\<open>range(index, n, 5)\<close>.\<close>

function range_by_5 :: "nat \<Rightarrow> nat \<Rightarrow> nat list" where
  "range_by_5 index n = (if index < n then index # range_by_5 (index + 5) n else [])"
  by pat_completeness auto
termination
  by (relation "measure (\<lambda>(index, n). n - index)") auto

declare range_by_5.simps [simp del]

record 'p action_row =
  row_type :: int
  components :: "'p list"

definition rows_of_group :: "('i \<Rightarrow> 'p) \<Rightarrow> 'i list \<Rightarrow> 'p action_row list" where
  "rows_of_group to_component_dict grp =
     (if length grp \<le> 5
      then [\<lparr>row_type = 1, components = map to_component_dict grp\<rparr>]
      else map (\<lambda>index. \<lparr>row_type = 1,
                          components = map to_component_dict (take 5 (drop index grp))\<rparr>)
               (range_by_5 0 (length grp)))"

text \<open>
  \<^verbatim>\<open>to_components\<close> on the items a view's \<^verbatim>\<open>children\<close> refer to; \<open>to_component_dict\<close> is
  the items' serialisation (for a select, \<^verbatim>\<open>_underlying.to_dict()\<close>, outside the sources).
  Python's \<^verbatim>\<open>sorted\<close> is stable, as \<open>sort_key\<close> is.
\<close>

definition to_components :: "(item \<Rightarrow> 'p) \<Rightarrow> item list \<Rightarrow> 'p action_row list" where
  "to_components to_component_dict cs =
     concat (map (\<lambda>(_, grp). rows_of_group to_component_dict grp)
                 (groupby sort_key_of (sort_key sort_key_of cs)))"

definition view_to_components :: "(item \<Rightarrow> 'p) \<Rightarrow> world \<Rightarrow> nat \<Rightarrow> 'p action_row list" where
  "view_to_components to_component_dict w self =
     to_components to_component_dict (map (item_heap w) (children (view_heap w self)))"

subsection \<open>Expiry, items, timers\<close>

text \<open>\<^verbatim>\<open>if self.timeout:\<close> is false for \<^verbatim>\<open>None\<close> and for a zero timeout.\<close>

definition timeout_truthy :: "view \<Rightarrow> bool" where
  "timeout_truthy v = (case timeout v of None \<Rightarrow> False | Some t \<Rightarrow> t \<noteq> 0)"

text \<open>\<^verbatim>\<open>_expires_at\<close>, with the reading of \<^verbatim>\<open>time.monotonic()\<close> as an argument.\<close>

definition expires_at :: "view \<Rightarrow> real \<Rightarrow> real option" where
  "expires_at v now = (if timeout_truthy v then Some (now + the (timeout v)) else None)"

datatype add_item_arg = AnItem nat | NotAnItem

definition add_item :: "world \<Rightarrow> nat \<Rightarrow> add_item_arg \<Rightarrow> world outcome" where
  "add_item w self arg =
     (let v = view_heap w self in
      if length (children v) > 25 then Raised ValueError w
      else case arg of
             NotAnItem \<Rightarrow> Raised TypeError w
           | AnItem r \<Rightarrow>
               Returned (w\<lparr>item_heap := (item_heap w)(r := (item_heap w r)\<lparr>item_view := Some self\<rparr>),
                           view_heap := (view_heap w)(self := v\<lparr>children := children v @ [r]\<rparr>)\<rparr>))"

definition remove_item :: "world \<Rightarrow> nat \<Rightarrow> nat \<Rightarrow> world" where
  "remove_item w self r =
     w\<lparr>view_heap := (view_heap w)(self :=
         (view_heap w self)\<lparr>children := remove1 r (children (view_heap w self))\<rparr>)\<rparr>"

definition clear_items :: "world \<Rightarrow> nat \<Rightarrow> world" where
  "clear_items w self =
     w\<lparr>view_heap := (view_heap w)(self := (view_heap w self)\<lparr>children := []\<rparr>)\<rparr>"

definition start_listening :: "view \<Rightarrow> view" where
  "start_listening v =
     (let v1 = v\<lparr>cancel_callback := True\<rparr>
      in if timeout_truthy v1 then v1\<lparr>timeout_handler := Some (the (timeout v1), False)\<rparr> else v1)"

definition view_dispatch :: "world \<Rightarrow> nat \<Rightarrow> nat \<Rightarrow> interaction \<Rightarrow> world" where
  "view_dispatch w self it i = w\<lparr>tasks := tasks w @ [(self, it, i)]\<rparr>"

subsection \<open>The scheduled task\<close>

text \<open>
  \<^verbatim>\<open>interaction_check\<close> is overridable and \<^verbatim>\<open>item.callback\<close> is user code, so both are
  arguments: each returns, or raises, and may have changed the interaction (responded to
  it) by then. \<^verbatim>\<open>interaction.response.defer\<close> is outside the sources and an argument too.
  The task's state is the list of the calls it has made, in order, with the interaction.
\<close>

datatype check_result = CheckReturns bool interaction | CheckRaises py_error interaction

datatype call = InteractionCheck | Callback nat | Defer

definition scheduled_task ::
  "(interaction \<Rightarrow> check_result) \<Rightarrow> (nat \<Rightarrow> interaction \<Rightarrow> interaction outcome)
     \<Rightarrow> (interaction \<Rightarrow> interaction outcome) \<Rightarrow> item \<Rightarrow> interaction
     \<Rightarrow> (call list \<times> interaction) outcome" where
  "scheduled_task interaction_check run_callback defer it i =
     (case interaction_check i of
        CheckRaises e i1 \<Rightarrow>
          if is_Exception e then Returned ([InteractionCheck], i1)
          else Raised e ([InteractionCheck], i1)
      | CheckReturns allow i1 \<Rightarrow>
          if \<not> allow then Returned ([InteractionCheck], i1)
          else (case run_callback (callback it) i1 of
                  Raised e i2 \<Rightarrow> Raised e ([InteractionCheck, Callback (callback it)], i2)
                | Returned i2 \<Rightarrow>
                    if \<not> responded i2
                    then (case defer i2 of
                            Raised e i3 \<Rightarrow>
                              Raised e ([InteractionCheck, Callback (callback it), Defer], i3)
                          | Returned i3 \<Rightarrow>
                              Returned ([InteractionCheck, Callback (callback it), Defer], i3))
                    else Returned ([InteractionCheck, Callback (callback it)], i2)))"

subsection \<open>Reconciliation\<close>

fun walk_all_components :: "component list \<Rightarrow> component list" where
  "walk_all_components [] = []"
| "walk_all_components (ActionRowComponent cs # rest) = cs @ walk_all_components rest"
| "walk_all_components (LeafComponent l # rest) = LeafComponent l # walk_all_components rest"

text \<open>
  \<^verbatim>\<open>Button.from_component\<close> and \<^verbatim>\<open>Item.from_component\<close> are outside the sources: they are
  the arguments \<open>button_from\<close> and \<open>item_from\<close>.
\<close>

definition component_to_item ::
  "(component \<Rightarrow> item) \<Rightarrow> (component \<Rightarrow> item) \<Rightarrow> component \<Rightarrow> item" where
  "component_to_item button_from item_from c =
     (case c of
        LeafComponent l \<Rightarrow> if is_button l then button_from c else item_from c
      | ActionRowComponent _ \<Rightarrow> item_from c)"

text \<open>The dict comprehension \<^verbatim>\<open>old_state\<close>: a later child replaces an earlier one with its key.\<close>

fun old_state :: "(nat \<Rightarrow> item) \<Rightarrow> nat list \<Rightarrow> (key \<Rightarrow> nat option) \<Rightarrow> (key \<Rightarrow> nat option)" where
  "old_state h [] m = m"
| "old_state h (r # rs) m =
     old_state h rs (if is_dispatchable (h r) then m(item_key (h r) \<mapsto> r) else m)"

text \<open>
  \<^verbatim>\<open>old_state[(component.type.value, component.custom_id)]\<close>: \<open>None\<close> is the \<^verbatim>\<open>except\<close>
  branch, a \<^verbatim>\<open>KeyError\<close> of the dict or the \<^verbatim>\<open>AttributeError\<close> of an action row, which has
  no \<^verbatim>\<open>custom_id\<close>.
\<close>

definition lookup_older :: "(key \<Rightarrow> nat option) \<Rightarrow> component \<Rightarrow> (nat \<times> leaf) option" where
  "lookup_older old c =
     (case c of
        ActionRowComponent _ \<Rightarrow> None
      | LeafComponent l \<Rightarrow>
          (case old (ctype l, ccustom_id l) of None \<Rightarrow> None | Some older \<Rightarrow> Some (older, l)))"

fun refresh_loop ::
  "(component \<Rightarrow> item) \<Rightarrow> (key \<Rightarrow> nat option) \<Rightarrow> component list \<Rightarrow> world \<Rightarrow> nat list
     \<Rightarrow> world \<times> nat list" where
  "refresh_loop mk old [] w acc = (w, acc)"
| "refresh_loop mk old (c # cs) w acc =
     (case lookup_older old c of
        None \<Rightarrow>
          refresh_loop mk old cs
            (w\<lparr>item_heap := (item_heap w)(next_item w := mk c), next_item := Suc (next_item w)\<rparr>)
            (acc @ [next_item w])
      | Some (older, l) \<Rightarrow>
          refresh_loop mk old cs
            (w\<lparr>item_heap := (item_heap w)(older := refresh_component (item_heap w older) l)\<rparr>)
            (acc @ [older]))"

definition refresh ::
  "(component \<Rightarrow> item) \<Rightarrow> (component \<Rightarrow> item) \<Rightarrow> world \<Rightarrow> nat \<Rightarrow> component list \<Rightarrow> world" where
  "refresh button_from item_from w self cs =
     (let old = old_state (item_heap w) (children (view_heap w self)) Map.empty;
          (w1, children') = refresh_loop (component_to_item button_from item_from) old
                              (walk_all_components cs) w []
      in w1\<lparr>view_heap := (view_heap w1)(self := (view_heap w1 self)\<lparr>children := children'\<rparr>)\<rparr>)"

section \<open>The view store\<close>

definition verify_integrity :: "world \<Rightarrow> real \<Rightarrow> world" where
  "verify_integrity w now =
     w\<lparr>views := (\<lambda>k. case views w k of
                       None \<Rightarrow> None
                     | Some (v, it, None) \<Rightarrow> Some (v, it, None)
                     | Some (v, it, Some expiry) \<Rightarrow>
                         if now \<ge> expiry then None else Some (v, it, Some expiry))\<rparr>"

fun register_items ::
  "(nat \<Rightarrow> item) \<Rightarrow> nat \<Rightarrow> real option \<Rightarrow> nat list \<Rightarrow> (key \<Rightarrow> entry option) \<Rightarrow> (key \<Rightarrow> entry option)" where
  "register_items h v expiry [] m = m"
| "register_items h v expiry (r # rs) m =
     register_items h v expiry rs
       (if is_dispatchable (h r) then m(item_key (h r) \<mapsto> (v, r, expiry)) else m)"

text \<open>
  \<^verbatim>\<open>add_view\<close> reads the clock twice: \<open>now_sweep\<close> in \<^verbatim>\<open>__verify_integrity\<close> and
  \<open>now_expiry\<close> in \<^verbatim>\<open>_expires_at\<close>. No statement of it raises.
\<close>

definition add_view :: "world \<Rightarrow> nat \<Rightarrow> int option \<Rightarrow> real \<Rightarrow> real \<Rightarrow> world outcome" where
  "add_view w v message_id now_sweep now_expiry =
     (let w1 = verify_integrity w now_sweep;
          expiry = expires_at (view_heap w1 v) now_expiry;
          w2 = w1\<lparr>view_heap := (view_heap w1)(v := start_listening (view_heap w1 v))\<rparr>;
          w3 = w2\<lparr>views := register_items (item_heap w2) v expiry
                              (children (view_heap w2 v)) (views w2)\<rparr>
      in Returned (case message_id of
                     None \<Rightarrow> w3
                   | Some m \<Rightarrow>
                       w3\<lparr>synced_message_views := AList.update m v (synced_message_views w3)\<rparr>))"

text \<open>\<^verbatim>\<open>self._views.pop(key)\<close> has no default: it raises \<^verbatim>\<open>KeyError\<close> for an absent key.\<close>

fun pop_items ::
  "(nat \<Rightarrow> item) \<Rightarrow> nat list \<Rightarrow> (key \<Rightarrow> entry option) \<Rightarrow> (key \<Rightarrow> entry option) outcome" where
  "pop_items h [] m = Returned m"
| "pop_items h (r # rs) m =
     (if is_dispatchable (h r)
      then (case m (item_key (h r)) of
              None \<Rightarrow> Raised KeyError m
            | Some _ \<Rightarrow> pop_items h rs (m(item_key (h r) := None)))
      else pop_items h rs m)"

fun del_first_synced :: "(nat \<Rightarrow> view) \<Rightarrow> string \<Rightarrow> (int \<times> nat) list \<Rightarrow> (int \<times> nat) list" where
  "del_first_synced vh ident [] = []"
| "del_first_synced vh ident ((k, val) # rest) =
     (if view_id (vh val) = ident then rest else (k, val) # del_first_synced vh ident rest)"

definition remove_view :: "world \<Rightarrow> nat \<Rightarrow> world outcome" where
  "remove_view w v =
     (case pop_items (item_heap w) (children (view_heap w v)) (views w) of
        Raised e m \<Rightarrow> Raised e (w\<lparr>views := m\<rparr>)
      | Returned m \<Rightarrow>
          Returned (w\<lparr>views := m,
                      synced_message_views :=
                        del_first_synced (view_heap w) (view_id (view_heap w v))
                          (synced_message_views w)\<rparr>))"

text \<open>
  \<^verbatim>\<open>stop\<close>. \<^verbatim>\<open>asyncio.Future.set_result\<close> raises \<^verbatim>\<open>InvalidStateError\<close> on a future that is
  already done. The cancel callback, when set, is the store's \<^verbatim>\<open>remove_view\<close>.
\<close>

definition stop :: "world \<Rightarrow> nat \<Rightarrow> world outcome" where
  "stop w self =
     (let v = view_heap w self in
      if stopped v \<noteq> None then Raised InvalidStateError w
      else
        let v1 = v\<lparr>stopped := Some False\<rparr>;
            v2 = (case timeout_handler v1 of
                    None \<Rightarrow> v1
                  | Some (delay, _) \<Rightarrow> v1\<lparr>timeout_handler := Some (delay, True)\<rparr>);
            w1 = w\<lparr>view_heap := (view_heap w)(self := v2)\<rparr>
        in if cancel_callback v2 then remove_view w1 self else Returned w1)"

text \<open>
  \<^verbatim>\<open>dispatch\<close> reads the clock in \<^verbatim>\<open>__verify_integrity\<close> (\<open>now_sweep\<close>) and, on a hit, again
  in \<^verbatim>\<open>_expires_at\<close> (\<open>now_expiry\<close>).
\<close>

definition dispatch :: "world \<Rightarrow> int \<Rightarrow> string \<Rightarrow> interaction \<Rightarrow> real \<Rightarrow> real \<Rightarrow> world" where
  "dispatch w component_type cid i now_sweep now_expiry =
     (let w1 = verify_integrity w now_sweep;
          k = (component_type, Some cid)
      in case views w1 k of
           None \<Rightarrow> w1
         | Some (v, it, _) \<Rightarrow>
             let w2 = w1\<lparr>views := (views w1)(k \<mapsto> (v, it, expires_at (view_heap w1 v) now_expiry))\<rparr>;
                 w3 = w2\<lparr>item_heap := (item_heap w2)(it := refresh_state (item_heap w2 it) i)\<rparr>
             in view_dispatch w3 v it i)"

definition is_message_tracked :: "world \<Rightarrow> int \<Rightarrow> bool" where
  "is_message_tracked w message_id = (map_of (synced_message_views w) message_id \<noteq> None)"

text \<open>
  \<^verbatim>\<open>_component_factory\<close> is outside the sources: the argument \<open>component_factory\<close>, applied
  to each payload after the lookup of the view.
\<close>

definition update_from_message ::
  "('d \<Rightarrow> component) \<Rightarrow> (component \<Rightarrow> item) \<Rightarrow> (component \<Rightarrow> item) \<Rightarrow> world \<Rightarrow> int \<Rightarrow> 'd list
     \<Rightarrow> world outcome" where
  "update_from_message component_factory button_from item_from w message_id payloads =
     (case map_of (synced_message_views w) message_id of
        None \<Rightarrow> Raised KeyError w
      | Some v \<Rightarrow> Returned (refresh button_from item_from w v (map component_factory payloads)))"

section \<open>The layout as the specification words it\<close>

text \<open>
  The specification of \<^verbatim>\<open>to_components\<close>: the groups in ascending order of their id with
  the ungrouped elements last, each group holding its elements in the order of the view's
  children, cut into rows of five.
\<close>

definition spec_group_order :: "item list \<Rightarrow> int option list" where
  "spec_group_order cs =
     map Some (sort (remdups (List.map_filter group_id cs)))
     @ (if None \<in> set (map group_id cs) then [None] else [])"

definition spec_chunks :: "'a list \<Rightarrow> 'a list list" where
  "spec_chunks xs = map (\<lambda>n. take 5 (drop (5 * n) xs)) [0..<(length xs + 4) div 5]"

definition spec_layout :: "item list \<Rightarrow> item list list" where
  "spec_layout cs =
     concat (map (\<lambda>g. spec_chunks (filter (\<lambda>i. group_id i = g) cs)) (spec_group_order cs))"

section \<open>Example objects\<close>

text \<open>A view as its constructor leaves it, with the given children.\<close>

definition new_view :: "real option \<Rightarrow> nat list \<Rightarrow> string \<Rightarrow> view" where
  "new_view tmo cs ident =
     \<lparr>timeout = tmo, children = cs, view_id = ident, cancel_callback = False,
      timeout_handler = None, stopped = None\<rparr>"

text \<open>
  Two views, each with one select whose custom id is \<open>''a''\<close>; a third view with a zero
  timeout and a select \<open>''z''\<close>.
\<close>

definition example_world :: world where
  "example_world =
     \<lparr>item_heap = (\<lambda>_. select_init [] None 1 1 [] None)
         (0 := select_init ''a'' None 1 1 [] None,
          1 := select_init ''a'' None 1 1 [] None,
          2 := select_init ''z'' None 1 1 [] None),
      view_heap = (\<lambda>_. new_view None [] [])
         (0 := new_view (Some 180) [0] ''v0'',
          1 := new_view (Some 60) [1] ''v1'',
          2 := new_view (Some 0) [2] ''v2''),
      next_item = 3,
      views = Map.empty,
      synced_message_views = [],
      tasks = []\<rparr>"

definition registered_world :: world where
  "registered_world = state_of (add_view example_world 0 (Some 10) 0 0)"

definition zero_timeout_world :: world where
  "zero_timeout_world = state_of (add_view example_world 2 None 0 0)"

text \<open>
  Twelve ungrouped selects; five selects of which three are in group 1; an option; a view
  that holds 25 children.
\<close>

definition twelve_ungrouped :: "item list" where
  "twelve_ungrouped = map (\<lambda>c. select_init [c] None 1 1 [] None) ''abcdefghijkl''"

definition grouped_five :: "item list" where
  "grouped_five =
     [select_init ''a'' None 1 1 [] None, select_init ''b'' None 1 1 [] (Some 1),
      select_init ''c'' None 1 1 [] (Some 1), select_init ''d'' None 1 1 [] None,
      select_init ''e'' None 1 1 [] (Some 1)]"

text \<open>
  A stand-in for \<^verbatim>\<open>Button.from_component\<close> and \<^verbatim>\<open>Item.from_component\<close>: an item around the
  component, and a message's components: a row with a select \<open>''a''\<close> and a button \<open>''b''\<close>.
\<close>

definition example_from_component :: "component \<Rightarrow> item" where
  "example_from_component c =
     (case c of
        LeafComponent l \<Rightarrow>
          \<lparr>underlying = l, group_id = None, selected_values = [], callback = 0,
           item_view = None, dispatchable = True\<rparr>
      | ActionRowComponent _ \<Rightarrow> select_init [] None 1 1 [] None)"

definition example_select_leaf :: leaf where
  "example_select_leaf =
     \<lparr>is_button = False, ctype = 3, ccustom_id = Some ''a'', placeholder = Some ''pick'',
      min_values = 1, max_values = 2, options = []\<rparr>"

definition example_button_leaf :: leaf where
  "example_button_leaf =
     \<lparr>is_button = True, ctype = 2, ccustom_id = Some ''b'', placeholder = None,
      min_values = 0, max_values = 0, options = []\<rparr>"

definition example_components :: "component list" where
  "example_components =
     [ActionRowComponent [LeafComponent example_select_leaf, LeafComponent example_button_leaf]]"

definition example_option :: "string \<Rightarrow> select_option" where
  "example_option l =
     \<lparr>opt_label = l, opt_value = l, opt_description = None, opt_emoji = None,
      opt_default = False\<rparr>"

text \<open>A view that holds the two selects with the custom id \<open>''a''\<close>.\<close>

definition duplicate_key_world :: world where
  "duplicate_key_world =
     example_world\<lparr>view_heap := (view_heap example_world)(6 := new_view None [0, 1] ''dup'')\<rparr>"

definition full_view_world :: world where
  "full_view_world =
     example_world\<lparr>view_heap := (view_heap example_world)(5 := new_view None [0..<25] ''full'')\<rparr>"

section \<open>Evaluating the examples\<close>

lemmas ex_defs = registered_world_def example_world_def add_view_def verify_integrity_def
  expires_at_def timeout_truthy_def start_listening_def new_view_def select_init_def
  is_dispatchable_def item_key_def item_type_def custom_id_def Let_def

section \<open>Select menus\<close>

text \<open>
  C9. \<^verbatim>\<open>refresh_state\<close> is idempotent: refreshing twice with the same interaction leaves
  the select as one refresh does, and each refresh overwrites the selected values with the
  values of the interaction's payload, the empty list when the payload has none.
\<close>

theorem refresh_state_idempotent:
  "refresh_state (refresh_state self i) i = refresh_state self i
   \<and> selected_values (refresh_state self i)
       = (case data_values i of None \<Rightarrow> [] | Some vs \<Rightarrow> vs)"
  by (simp add: refresh_state_def)

text \<open>
  C6. A select that holds 25 options accepts a 26th: \<^verbatim>\<open>append_option\<close> returns with the
  option appended and 26 options held, since its guard is \<^verbatim>\<open>len(options) > 25\<close>.
\<close>

theorem append_option_accepts_26th:
  "length (options (underlying self)) = 25 \<Longrightarrow>
     append_option self option
       = Returned (self\<lparr>underlying :=
                     (underlying self)\<lparr>options := options (underlying self) @ [option]\<rparr>\<rparr>)
   \<and> length (options (underlying (state_of (append_option self option)))) = 26"
  by (simp add: append_option_def)

theorem append_option_accepts_26th_witness:
  "length (options (underlying
      (select_init ''s'' None 1 1 (replicate 25 (example_option ''o'')) None))) = 25
   \<and> append_option (select_init ''s'' None 1 1 (replicate 25 (example_option ''o'')) None)
        (example_option ''p'')
       = Returned (select_init ''s'' None 1 1
                     (replicate 25 (example_option ''o'') @ [example_option ''p'']) None)
   \<and> length (options (underlying (state_of
        (append_option (select_init ''s'' None 1 1 (replicate 25 (example_option ''o'')) None)
           (example_option ''p''))))) = 26"
proof -
  have h: "length (options (underlying
      (select_init ''s'' None 1 1 (replicate 25 (example_option ''o'')) None))) = 25"
    by (simp add: select_init_def)
  from append_option_accepts_26th [OF h, of "example_option ''p''"] h show ?thesis
    by (simp add: select_init_def)
qed

text \<open>The 27th option is the first one refused, the 26 options staying.\<close>

lemma append_option_refuses_27th:
  "length (options (underlying self)) = 26 \<Longrightarrow> append_option self option = Raised ValueError self"
  by (simp add: append_option_def)

section \<open>Views\<close>

lemma init_subclass_bound:
  "init_subclass mro = Inr cs \<Longrightarrow> length cs \<le> 25"
  by (auto simp add: init_subclass_def Let_def split: if_splits)

lemma init_subclass_refuses_26:
  "ui_model m \<noteq> None \<Longrightarrow> init_subclass [replicate 26 m] = Inl TypeError"
  by (simp add: init_subclass_def)

text \<open>
  C7. A view that holds 25 children accepts a 26th: \<^verbatim>\<open>add_item\<close> does not raise and
  appends the item, leaving 26 children, since its guard is \<^verbatim>\<open>len(self.children) > 25\<close>.
\<close>

theorem add_item_accepts_26th:
  "length (children (view_heap w v)) = 25 \<Longrightarrow>
     \<not> raises (add_item w v (AnItem r))
   \<and> children (view_heap (state_of (add_item w v (AnItem r))) v) = children (view_heap w v) @ [r]
   \<and> length (children (view_heap (state_of (add_item w v (AnItem r))) v)) = 26"
  by (simp add: add_item_def Let_def)

theorem add_item_accepts_26th_witness:
  "length (children (view_heap full_view_world 5)) = 25
   \<and> \<not> raises (add_item full_view_world 5 (AnItem 25))
   \<and> length (children (view_heap (state_of (add_item full_view_world 5 (AnItem 25))) 5)) = 26"
proof -
  have h: "length (children (view_heap full_view_world 5)) = 25"
    by (simp add: full_view_world_def new_view_def)
  from add_item_accepts_26th [OF h, of 25] h show ?thesis by simp
qed

section \<open>The store\<close>

text \<open>
  C10. For a message id with no recorded view (\<^verbatim>\<open>is_message_tracked\<close> is false),
  \<^verbatim>\<open>update_from_message\<close> raises \<^verbatim>\<open>KeyError\<close>, with the state as it was: the untracked
  case is not ignored.
\<close>

theorem update_from_message_untracked:
  "\<not> is_message_tracked w message_id \<Longrightarrow>
     update_from_message component_factory button_from item_from w message_id payloads
       = Raised KeyError w"
  by (simp add: update_from_message_def is_message_tracked_def)

theorem update_from_message_untracked_witness:
  "\<not> is_message_tracked registered_world 11
   \<and> update_from_message (\<lambda>d. LeafComponent d) (\<lambda>c. select_init [] None 1 1 [] None)
        (\<lambda>c. select_init [] None 1 1 [] None) registered_world 11 []
       = Raised KeyError registered_world"
proof -
  have h: "\<not> is_message_tracked registered_world 11"
    by (simp add: is_message_tracked_def registered_world_def example_world_def add_view_def
        verify_integrity_def expires_at_def timeout_truthy_def start_listening_def new_view_def
        select_init_def is_dispatchable_def item_key_def item_type_def custom_id_def Let_def)
  show ?thesis using h update_from_message_untracked [OF h] by simp
qed

lemma pop_items_removes_only:
  "pop_items h rs m = Returned m' \<Longrightarrow> m k = None \<Longrightarrow> m' k = None"
  by (induction rs arbitrary: m) (auto split: if_splits option.splits)

lemma pop_items_popped:
  "pop_items h rs m = Returned m' \<Longrightarrow>
     \<forall>r\<in>set rs. is_dispatchable (h r) \<longrightarrow> m' (item_key (h r)) = None"
proof (induction rs arbitrary: m)
  case Nil
  then show ?case by simp
next
  case (Cons a rs)
  show ?case
  proof (cases "is_dispatchable (h a)")
    case False
    with Cons show ?thesis by auto
  next
    case True
    with Cons.prems obtain e where e: "m (item_key (h a)) = Some e"
      and rest: "pop_items h rs (m(item_key (h a) := None)) = Returned m'"
      by (auto split: option.splits)
    from pop_items_removes_only [OF rest, of "item_key (h a)"]
    have "m' (item_key (h a)) = None" by simp
    with Cons.IH [OF rest] show ?thesis by simp
  qed
qed

lemma pop_items_absent:
  "\<exists>r\<in>set rs. is_dispatchable (h r) \<Longrightarrow>
   \<forall>r\<in>set rs. is_dispatchable (h r) \<longrightarrow> m (item_key (h r)) = None \<Longrightarrow>
     pop_items h rs m = Raised KeyError m"
  by (induction rs) auto

text \<open>
  C3. For a view with a dispatchable child, a second \<^verbatim>\<open>remove_view\<close> raises: the first
  call pops the keys of the view's children, the second finds the first of them absent and
  \<^verbatim>\<open>pop\<close>, called with no default, raises \<^verbatim>\<open>KeyError\<close>. The registry stays as the first
  call left it.
\<close>

theorem remove_view_second_raises:
  assumes "remove_view w v = Returned w'"
    and "\<exists>r\<in>set (children (view_heap w v)). is_dispatchable (item_heap w r)"
  shows "remove_view w' v = Raised KeyError w'"
proof -
  from assms(1) obtain m where m: "pop_items (item_heap w) (children (view_heap w v)) (views w) = Returned m"
    and w': "w' = w\<lparr>views := m, synced_message_views :=
                        del_first_synced (view_heap w) (view_id (view_heap w v))
                          (synced_message_views w)\<rparr>"
    by (auto simp add: remove_view_def split: outcome.splits)
  from w' have same: "item_heap w' = item_heap w" "view_heap w' = view_heap w" "views w' = m"
    by simp_all
  from pop_items_popped [OF m] assms(2)
  have "pop_items (item_heap w) (children (view_heap w v)) m = Raised KeyError m"
    by (intro pop_items_absent) auto
  with same show ?thesis by (simp add: remove_view_def)
qed

theorem remove_view_second_raises_witness:
  "remove_view registered_world 0 = Returned (state_of (remove_view registered_world 0))
   \<and> children (view_heap registered_world 0) = [0]
   \<and> is_dispatchable (item_heap registered_world 0)
   \<and> remove_view (state_of (remove_view registered_world 0)) 0
       = Raised KeyError (state_of (remove_view registered_world 0))"
proof -
  have a: "remove_view registered_world 0 = Returned (state_of (remove_view registered_world 0))"
    and c: "children (view_heap registered_world 0) = [0]"
    and d: "is_dispatchable (item_heap registered_world 0)"
    by (simp_all add: remove_view_def ex_defs)
  from c d have b: "\<exists>r\<in>set (children (view_heap registered_world 0)).
      is_dispatchable (item_heap registered_world r)" by simp
  from remove_view_second_raises [OF a b] a c d show ?thesis by simp
qed

text \<open>
  A second \<^verbatim>\<open>stop\<close> raises as well. So does the first \<^verbatim>\<open>remove_view\<close>, or \<^verbatim>\<open>stop\<close>, of a
  view whose entry the lazy sweep has already removed (here at time 200, the entry expiring
  at 180).
\<close>

lemma stop_and_sweep_raise:
  "stop registered_world 0 = Returned (state_of (stop registered_world 0))
   \<and> raises (stop (state_of (stop registered_world 0)) 0)
   \<and> views (verify_integrity registered_world 200) (3, Some ''a'') = None
   \<and> remove_view (verify_integrity registered_world 200) 0
       = Raised KeyError (verify_integrity registered_world 200)
   \<and> raises (stop (verify_integrity registered_world 200) 0)"
  by (simp add: remove_view_def stop_def ex_defs)

section \<open>The scheduled task\<close>

text \<open>
  C5, as the claim states it, fails for an exception that \<^verbatim>\<open>except Exception\<close> does not
  catch: when \<^verbatim>\<open>interaction_check\<close> raises one derived from \<^verbatim>\<open>BaseException\<close> only, the
  task does not end silently, the exception leaves it.
\<close>

theorem scheduled_task_base_exception_counterexample:
  "scheduled_task (\<lambda>i. CheckRaises (UserBaseException ''CancelledError'') i)
      (\<lambda>h i. Returned i) (\<lambda>i. Returned (i\<lparr>responded := True\<rparr>))
      (select_init ''a'' None 1 1 [] None) \<lparr>data_values = None, responded = False\<rparr>
    = Raised (UserBaseException ''CancelledError'')
        ([InteractionCheck], \<lparr>data_values = None, responded = False\<rparr>)"
  by (simp add: scheduled_task_def)

text \<open>
  C5, amended. When \<^verbatim>\<open>interaction_check\<close> raises an exception derived from \<^verbatim>\<open>Exception\<close>,
  or returns false, the task returns having called nothing but the check: no handler, no
  acknowledgement. An exception not derived from \<^verbatim>\<open>Exception\<close> leaves the task, again
  with no handler and no acknowledgement. When the check returns true the handler is called;
  after it returns, \<^verbatim>\<open>defer\<close> is called once if the interaction is not yet responded to,
  and not at all otherwise; when the handler raises, its exception leaves the task and
  \<^verbatim>\<open>defer\<close> is not called.
\<close>

theorem scheduled_task_outcomes:
  "(interaction_check i = CheckRaises e i1 \<and> is_Exception e
      \<longrightarrow> scheduled_task interaction_check run_callback defer it i
            = Returned ([InteractionCheck], i1))
   \<and> (interaction_check i = CheckReturns False i1
      \<longrightarrow> scheduled_task interaction_check run_callback defer it i
            = Returned ([InteractionCheck], i1))
   \<and> (interaction_check i = CheckRaises e i1 \<and> \<not> is_Exception e
      \<longrightarrow> scheduled_task interaction_check run_callback defer it i
            = Raised e ([InteractionCheck], i1))
   \<and> (interaction_check i = CheckReturns True i1 \<and> run_callback (callback it) i1 = Returned i2
      \<longrightarrow> fst (state_of (scheduled_task interaction_check run_callback defer it i))
            = [InteractionCheck, Callback (callback it)] @ (if responded i2 then [] else [Defer]))
   \<and> (interaction_check i = CheckReturns True i1 \<and> run_callback (callback it) i1 = Raised e i2
      \<longrightarrow> scheduled_task interaction_check run_callback defer it i
            = Raised e ([InteractionCheck, Callback (callback it)], i2))"
  by (auto simp add: scheduled_task_def split: outcome.splits)

theorem scheduled_task_outcomes_witness:
  "scheduled_task (\<lambda>i. CheckRaises (UserException ''PermissionError'') i)
      (\<lambda>h i. Returned i) (\<lambda>i. Returned (i\<lparr>responded := True\<rparr>))
      (select_init ''a'' None 1 1 [] None) \<lparr>data_values = None, responded = False\<rparr>
     = Returned ([InteractionCheck], \<lparr>data_values = None, responded = False\<rparr>)
   \<and> scheduled_task (\<lambda>i. CheckReturns False i)
      (\<lambda>h i. Returned i) (\<lambda>i. Returned (i\<lparr>responded := True\<rparr>))
      (select_init ''a'' None 1 1 [] None) \<lparr>data_values = None, responded = False\<rparr>
     = Returned ([InteractionCheck], \<lparr>data_values = None, responded = False\<rparr>)
   \<and> fst (state_of (scheduled_task (\<lambda>i. CheckReturns True i)
      (\<lambda>h i. Returned i) (\<lambda>i. Returned (i\<lparr>responded := True\<rparr>))
      (select_init ''a'' None 1 1 [] None) \<lparr>data_values = None, responded = False\<rparr>))
     = [InteractionCheck, Callback 0, Defer]
   \<and> fst (state_of (scheduled_task (\<lambda>i. CheckReturns True i)
      (\<lambda>h i. Returned (i\<lparr>responded := True\<rparr>)) (\<lambda>i. Returned (i\<lparr>responded := True\<rparr>))
      (select_init ''a'' None 1 1 [] None) \<lparr>data_values = None, responded = False\<rparr>))
     = [InteractionCheck, Callback 0]"
proof -
  let ?i = "\<lparr>data_values = None, responded = False\<rparr>"
  let ?it = "select_init ''a'' None 1 1 [] None"
  let ?d = "\<lambda>i::interaction. Returned (i\<lparr>responded := True\<rparr>)"
  have c: "callback ?it = 0" by (simp add: select_init_def)
  note t1 = scheduled_task_outcomes [of "\<lambda>i. CheckRaises (UserException ''PermissionError'') i" ?i
      "UserException ''PermissionError''" ?i "\<lambda>h i. Returned i" ?d ?it ?i]
  note t2 = scheduled_task_outcomes [of "\<lambda>i. CheckReturns False i" ?i
      "UserException ''PermissionError''" ?i "\<lambda>h i. Returned i" ?d ?it ?i]
  note t3 = scheduled_task_outcomes [of "\<lambda>i. CheckReturns True i" ?i
      "UserException ''PermissionError''" ?i "\<lambda>h i. Returned i" ?d ?it ?i]
  note t4 = scheduled_task_outcomes [of "\<lambda>i. CheckReturns True i" ?i
      "UserException ''PermissionError''" ?i "\<lambda>h i. Returned (i\<lparr>responded := True\<rparr>)" ?d ?it
      "?i\<lparr>responded := True\<rparr>"]
  show ?thesis using t1 t2 t3 t4 c by simp
qed

section \<open>Dispatch and sliding expiry\<close>

text \<open>
  C2, as the claim states it, fails for a view whose timeout is zero: \<^verbatim>\<open>if self.timeout:\<close>
  treats zero as no timeout, so a dispatch at time 5 leaves the expiry \<^verbatim>\<open>None\<close>, not
  \<open>5 + 0\<close>.
\<close>

theorem dispatch_zero_timeout_counterexample:
  "timeout (view_heap zero_timeout_world 2) = Some 0
   \<and> views zero_timeout_world (3, Some ''z'') = Some (2, 2, None)
   \<and> views (dispatch zero_timeout_world 3 ''z'' \<lparr>data_values = None, responded = False\<rparr> 5 5)
        (3, Some ''z'') = Some (2, 2, None)
   \<and> views (dispatch zero_timeout_world 3 ''z'' \<lparr>data_values = None, responded = False\<rparr> 5 5)
        (3, Some ''z'') \<noteq> Some (2, 2, Some (5 + 0))"
  by (simp add: zero_timeout_world_def dispatch_def view_dispatch_def ex_defs)

lemma verify_integrity_expired:
  "views w k = Some (v, it, Some x) \<Longrightarrow> x \<le> now \<Longrightarrow>
     verify_integrity (w\<lparr>views := (views w)(k := None)\<rparr>) now = verify_integrity w now"
  by (auto simp add: verify_integrity_def fun_eq_iff)

text \<open>
  C2, amended. A dispatch to a key whose entry has not expired at the sweep stores, for that
  key, the expiry \<open>now + T\<close> when the view's timeout \<open>T\<close> is not zero (\<open>now\<close> being the
  clock read after the sweep), and no expiry when the timeout is \<^verbatim>\<open>None\<close> or zero; it
  refreshes the item's state and schedules one task. A dispatch to a key whose entry has
  expired (\<open>expiry \<le> now\<close> at the sweep) gives the very state a dispatch gives when the key
  is absent: the entry is gone, no item is refreshed, no task is scheduled.
\<close>

theorem dispatch_sliding_expiry:
  "(views w (ct, Some cid) = Some (v, it, e) \<and> (\<forall>x. e = Some x \<longrightarrow> now_sweep < x)
      \<longrightarrow> views (dispatch w ct cid i now_sweep now_expiry) (ct, Some cid)
            = Some (v, it, case timeout (view_heap w v) of
                             None \<Rightarrow> None
                           | Some T \<Rightarrow> if T = 0 then None else Some (now_expiry + T))
          \<and> item_heap (dispatch w ct cid i now_sweep now_expiry)
              = (item_heap w)(it := refresh_state (item_heap w it) i)
          \<and> tasks (dispatch w ct cid i now_sweep now_expiry) = tasks w @ [(v, it, i)])
   \<and> (views w (ct, Some cid) = Some (v, it, Some x) \<and> x \<le> now_sweep
      \<longrightarrow> dispatch w ct cid i now_sweep now_expiry
            = dispatch (w\<lparr>views := (views w)((ct, Some cid) := None)\<rparr>) ct cid i now_sweep now_expiry
          \<and> views (dispatch w ct cid i now_sweep now_expiry) (ct, Some cid) = None
          \<and> item_heap (dispatch w ct cid i now_sweep now_expiry) = item_heap w
          \<and> tasks (dispatch w ct cid i now_sweep now_expiry) = tasks w)"
proof (intro conjI impI)
  assume a: "views w (ct, Some cid) = Some (v, it, e) \<and> (\<forall>x. e = Some x \<longrightarrow> now_sweep < x)"
  then have s: "views (verify_integrity w now_sweep) (ct, Some cid) = Some (v, it, e)"
    by (cases e) (auto simp add: verify_integrity_def)
  have h: "view_heap (verify_integrity w now_sweep) = view_heap w"
          "item_heap (verify_integrity w now_sweep) = item_heap w"
          "tasks (verify_integrity w now_sweep) = tasks w"
    by (simp_all add: verify_integrity_def)
  show "views (dispatch w ct cid i now_sweep now_expiry) (ct, Some cid)
            = Some (v, it, case timeout (view_heap w v) of
                             None \<Rightarrow> None
                           | Some T \<Rightarrow> if T = 0 then None else Some (now_expiry + T))"
    using s h by (simp add: dispatch_def view_dispatch_def Let_def expires_at_def timeout_truthy_def
        split: option.splits)
  show "item_heap (dispatch w ct cid i now_sweep now_expiry)
              = (item_heap w)(it := refresh_state (item_heap w it) i)"
    using s h by (simp add: dispatch_def view_dispatch_def Let_def)
  show "tasks (dispatch w ct cid i now_sweep now_expiry) = tasks w @ [(v, it, i)]"
    using s h by (simp add: dispatch_def view_dispatch_def Let_def)
next
  assume b: "views w (ct, Some cid) = Some (v, it, Some x) \<and> x \<le> now_sweep"
  then have s: "views (verify_integrity w now_sweep) (ct, Some cid) = None"
    by (simp add: verify_integrity_def)
  have d: "dispatch w ct cid i now_sweep now_expiry = verify_integrity w now_sweep"
    using s by (simp add: dispatch_def Let_def)
  have s': "views (verify_integrity (w\<lparr>views := (views w)((ct, Some cid) := None)\<rparr>) now_sweep)
              (ct, Some cid) = None"
    by (simp add: verify_integrity_def)
  have d': "dispatch (w\<lparr>views := (views w)((ct, Some cid) := None)\<rparr>) ct cid i now_sweep now_expiry
             = verify_integrity (w\<lparr>views := (views w)((ct, Some cid) := None)\<rparr>) now_sweep"
    using s' by (simp add: dispatch_def Let_def)
  show "dispatch w ct cid i now_sweep now_expiry
            = dispatch (w\<lparr>views := (views w)((ct, Some cid) := None)\<rparr>) ct cid i now_sweep now_expiry"
    using b d d' verify_integrity_expired [of w "(ct, Some cid)" v it x now_sweep] by simp
  show "views (dispatch w ct cid i now_sweep now_expiry) (ct, Some cid) = None"
    using d s by simp
  show "item_heap (dispatch w ct cid i now_sweep now_expiry) = item_heap w"
    using d by (simp add: verify_integrity_def)
  show "tasks (dispatch w ct cid i now_sweep now_expiry) = tasks w"
    using d by (simp add: verify_integrity_def)
qed

theorem dispatch_sliding_expiry_witness:
  "views registered_world (3, Some ''a'') = Some (0, 0, Some 180)
   \<and> timeout (view_heap registered_world 0) = Some 180
   \<and> views (dispatch registered_world 3 ''a'' \<lparr>data_values = Some [''x''], responded = False\<rparr> 100 101)
        (3, Some ''a'') = Some (0, 0, Some 281)
   \<and> tasks (dispatch registered_world 3 ''a'' \<lparr>data_values = Some [''x''], responded = False\<rparr> 100 101)
       = [(0, 0, \<lparr>data_values = Some [''x''], responded = False\<rparr>)]
   \<and> views (dispatch registered_world 3 ''a'' \<lparr>data_values = Some [''x''], responded = False\<rparr> 180 181)
        (3, Some ''a'') = None
   \<and> item_heap (dispatch registered_world 3 ''a'' \<lparr>data_values = Some [''x''], responded = False\<rparr> 180 181)
       = item_heap registered_world
   \<and> tasks (dispatch registered_world 3 ''a'' \<lparr>data_values = Some [''x''], responded = False\<rparr> 180 181)
       = []"
proof -
  let ?i = "\<lparr>data_values = Some [''x''], responded = False\<rparr>"
  have e: "views registered_world (3, Some ''a'') = Some (0, 0, Some 180)"
    by (simp add: ex_defs)
  have t: "timeout (view_heap registered_world 0) = Some 180"
    by (simp add: ex_defs)
  have k: "tasks registered_world = []"
    by (simp add: ex_defs)
  note hit = dispatch_sliding_expiry [of registered_world 3 "''a''" 0 0 "Some 180" 100 ?i 101 180]
  note late = dispatch_sliding_expiry [of registered_world 3 "''a''" 0 0 "Some 180" 180 ?i 181 180]
  have lt: "\<forall>x. Some (180::real) = Some x \<longrightarrow> 100 < x" and le: "(180::real) \<le> 180"
    by simp_all
  from hit e lt
  have p1: "views (dispatch registered_world 3 ''a'' ?i 100 101) (3, Some ''a'')
              = Some (0, 0, case timeout (view_heap registered_world 0) of
                              None \<Rightarrow> None
                            | Some T \<Rightarrow> if T = 0 then None else Some (101 + T))"
    and p2: "tasks (dispatch registered_world 3 ''a'' ?i 100 101)
              = tasks registered_world @ [(0, 0, ?i)]"
    by blast+
  from late e le
  have p3: "views (dispatch registered_world 3 ''a'' ?i 180 181) (3, Some ''a'') = None"
    and p4: "item_heap (dispatch registered_world 3 ''a'' ?i 180 181) = item_heap registered_world"
    and p5: "tasks (dispatch registered_world 3 ''a'' ?i 180 181) = tasks registered_world"
    by blast+
  show ?thesis using e t k p1 p2 p3 p4 p5 by simp
qed

section \<open>Registration\<close>

text \<open>
  C1, as the claim states it, fails: \<^verbatim>\<open>add_view\<close> has no collision check. With the key of
  view 1's select already registered for view 0, \<^verbatim>\<open>add_view\<close> of view 1 returns and the
  key now leads to view 1.
\<close>

theorem add_view_collision_counterexample:
  "views registered_world (item_key (item_heap registered_world 1)) = Some (0, 0, Some 180)
   \<and> children (view_heap registered_world 1) = [1]
   \<and> is_dispatchable (item_heap registered_world 1)
   \<and> \<not> raises (add_view registered_world 1 None 1 1)
   \<and> views (state_of (add_view registered_world 1 None 1 1))
        (item_key (item_heap registered_world 1)) = Some (1, 1, Some 61)"
  by (simp add: ex_defs)

lemma register_items_miss:
  "\<forall>r\<in>set rs. is_dispatchable (h r) \<longrightarrow> item_key (h r) \<noteq> k \<Longrightarrow>
     register_items h v e rs m k = m k"
  by (induction rs arbitrary: m) auto

lemma register_items_hit:
  "r \<in> set rs \<Longrightarrow> is_dispatchable (h r) \<Longrightarrow>
     \<exists>r'\<in>set rs. item_key (h r') = item_key (h r)
        \<and> register_items h v e rs m (item_key (h r)) = Some (v, r', e)"
proof (induction rs arbitrary: m r)
  case Nil
  then show ?case by simp
next
  case (Cons a rs)
  let ?m = "if is_dispatchable (h a) then m(item_key (h a) \<mapsto> (v, a, e)) else m"
  show ?case
  proof (cases "\<exists>r''\<in>set rs. is_dispatchable (h r'') \<and> item_key (h r'') = item_key (h r)")
    case True
    then obtain r'' where r'': "r'' \<in> set rs" "is_dispatchable (h r'')"
      "item_key (h r'') = item_key (h r)" by blast
    from Cons.IH [OF r''(1) r''(2), of ?m] r''(3) show ?thesis by auto
  next
    case False
    then have miss: "register_items h v e rs ?m (item_key (h r)) = ?m (item_key (h r))"
      by (intro register_items_miss) auto
    from False Cons.prems have "r = a" by auto
    with miss Cons.prems show ?thesis by auto
  qed
qed

text \<open>
  C1, amended. \<^verbatim>\<open>add_view\<close> never raises. After it, the key of every dispatchable child
  of the view leads to this view, to a child of it with that key and to the view's new
  expiry, whether or not the key was registered before; every other key keeps the entry the
  sweep left it.
\<close>

theorem add_view_overwrites:
  "\<exists>w'. add_view w v message_id now_sweep now_expiry = Returned w'
     \<and> (\<forall>r\<in>set (children (view_heap w v)). is_dispatchable (item_heap w r) \<longrightarrow>
          (\<exists>r'\<in>set (children (view_heap w v)).
              item_key (item_heap w r') = item_key (item_heap w r)
            \<and> views w' (item_key (item_heap w r))
                = Some (v, r', expires_at (view_heap w v) now_expiry)))
     \<and> (\<forall>k. (\<forall>r\<in>set (children (view_heap w v)).
                 is_dispatchable (item_heap w r) \<longrightarrow> item_key (item_heap w r) \<noteq> k)
            \<longrightarrow> views w' k = views (verify_integrity w now_sweep) k)"
proof -
  let ?w1 = "verify_integrity w now_sweep"
  let ?e = "expires_at (view_heap w v) now_expiry"
  let ?cs = "children (view_heap w v)"
  let ?m = "register_items (item_heap w) v ?e ?cs (views ?w1)"
  have h: "view_heap ?w1 = view_heap w" "item_heap ?w1 = item_heap w"
    by (simp_all add: verify_integrity_def)
  have c: "children (start_listening (view_heap w v)) = ?cs"
    by (simp add: start_listening_def Let_def)
  obtain w' where w': "add_view w v message_id now_sweep now_expiry = Returned w'"
    by (simp add: add_view_def Let_def)
  have m: "views w' = ?m"
    using w' h c by (auto simp add: add_view_def Let_def split: option.splits)
  have hit: "\<forall>r\<in>set ?cs. is_dispatchable (item_heap w r) \<longrightarrow>
          (\<exists>r'\<in>set ?cs. item_key (item_heap w r') = item_key (item_heap w r)
            \<and> views w' (item_key (item_heap w r)) = Some (v, r', ?e))"
    using register_items_hit [of _ ?cs "item_heap w" v ?e "views ?w1"] m by simp
  have miss: "\<forall>k. (\<forall>r\<in>set ?cs. is_dispatchable (item_heap w r) \<longrightarrow> item_key (item_heap w r) \<noteq> k)
            \<longrightarrow> views w' k = views ?w1 k"
    using register_items_miss [of ?cs "item_heap w" _ v ?e "views ?w1"] m by simp
  from w' hit miss show ?thesis by blast
qed

theorem add_view_overwrites_witness:
  "1 \<in> set (children (view_heap registered_world 1))
   \<and> is_dispatchable (item_heap registered_world 1)
   \<and> views registered_world (item_key (item_heap registered_world 1)) = Some (0, 0, Some 180)
   \<and> (\<exists>w'. add_view registered_world 1 None 1 1 = Returned w'
         \<and> views w' (item_key (item_heap registered_world 1)) = Some (1, 1, Some 61))"
proof -
  have a: "children (view_heap registered_world 1) = [1]"
    "is_dispatchable (item_heap registered_world 1)"
    "views registered_world (item_key (item_heap registered_world 1)) = Some (0, 0, Some 180)"
    "expires_at (view_heap registered_world 1) 1 = Some 61"
    by (simp_all add: ex_defs)
  from add_view_overwrites [of registered_world 1 None 1 1] a show ?thesis
    by auto
qed

section \<open>Layout\<close>

lemma range_by_5_upt:
  "range_by_5 (5 * j) n = map (\<lambda>m. 5 * m) [j..<(n + 4) div 5]"
proof (induction "5 * j" n arbitrary: j rule: range_by_5.induct)
  case (1 n)
  show ?case
  proof (cases "5 * j < n")
    case True
    then have lt: "j < (n + 4) div 5" by presburger
    have "range_by_5 (5 * j + 5) n = map (\<lambda>m. 5 * m) [Suc j..<(n + 4) div 5]"
      using "1.hyps" [of "Suc j"] True by (simp add: add.commute)
    with True lt show ?thesis
      by (subst range_by_5.simps) (simp add: upt_conv_Cons)
  next
    case False
    then have "(n + 4) div 5 \<le> j" by presburger
    with False show ?thesis
      by (subst range_by_5.simps) simp
  qed
qed

lemma rows_of_group_spec:
  "grp \<noteq> [] \<Longrightarrow>
     rows_of_group tcd grp = map (\<lambda>r. \<lparr>row_type = 1, components = map tcd r\<rparr>) (spec_chunks grp)"
proof (cases "length grp \<le> 5")
  case True
  assume "grp \<noteq> []"
  then have "1 \<le> length grp" by (cases grp) simp_all
  with True have "(length grp + 4) div 5 = 1" by arith
  with True show ?thesis by (simp add: rows_of_group_def spec_chunks_def)
next
  case False
  have "range_by_5 0 (length grp) = map (\<lambda>m. 5 * m) [0..<(length grp + 4) div 5]"
    using range_by_5_upt [of 0 "length grp"] by simp
  with False show ?thesis
    by (simp add: rows_of_group_def spec_chunks_def comp_def)
qed

lemma takeWhile_dropWhile_sorted_key:
  fixes f :: "'a \<Rightarrow> 'k::linorder"
  shows "sorted (map f xs) \<Longrightarrow> \<forall>y\<in>set xs. k \<le> f y \<Longrightarrow>
     takeWhile (\<lambda>y. f y = k) xs = filter (\<lambda>y. f y = k) xs
     \<and> dropWhile (\<lambda>y. f y = k) xs = filter (\<lambda>y. f y \<noteq> k) xs"
proof (induction xs)
  case Nil
  then show ?case by simp
next
  case (Cons a as)
  show ?case
  proof (cases "f a = k")
    case True
    with Cons show ?thesis by simp
  next
    case False
    with Cons.prems have "\<forall>y\<in>set (a # as). f y \<noteq> k" by fastforce
    then have "filter (\<lambda>y. f y = k) (a # as) = []" "filter (\<lambda>y. f y \<noteq> k) (a # as) = a # as"
      by (simp_all add: filter_empty_conv del: filter.simps)
    with False show ?thesis by simp
  qed
qed

lemma sorted_list_of_set_insert_least:
  fixes k :: "'k::linorder"
  assumes "finite S" "\<forall>x\<in>S. k < x"
  shows "sorted_list_of_set (insert k S) = k # sorted_list_of_set S"
proof -
  have "sorted (k # sorted_list_of_set S)" "distinct (k # sorted_list_of_set S)"
    using assms by (auto simp add: less_imp_le)
  then have "sorted_list_of_set (set (k # sorted_list_of_set S)) = k # sorted_list_of_set S"
    by (rule sorted_list_of_set.idem_if_sorted_distinct)
  with assms(1) show ?thesis by simp
qed

lemma groupby_sorted:
  fixes f :: "'a \<Rightarrow> 'k::linorder"
  shows "sorted (map f xs) \<Longrightarrow>
     groupby f xs = map (\<lambda>k. (k, filter (\<lambda>y. f y = k) xs)) (sorted_list_of_set (f ` set xs))"
proof (induction f xs rule: groupby.induct)
  case (1 f)
  then show ?case by simp
next
  case (2 f x xs)
  let ?k = "f x"
  let ?rest = "filter (\<lambda>y. f y \<noteq> ?k) xs"
  from "2.prems" have s: "sorted (map f xs)" and le: "\<forall>y\<in>set xs. ?k \<le> f y" by auto
  note td = takeWhile_dropWhile_sorted_key [OF s le]
  have sr: "sorted (map f ?rest)" using s by (rule sorted_filter)
  have ih: "groupby f ?rest
      = map (\<lambda>k. (k, filter (\<lambda>y. f y = k) ?rest)) (sorted_list_of_set (f ` set ?rest))"
    using "2.IH" sr td by simp
  have img: "f ` set (x # xs) = insert ?k (f ` set ?rest)" by auto
  have lt: "\<forall>k\<in>f ` set ?rest. ?k < k" using le by fastforce
  have keys: "sorted_list_of_set (f ` set (x # xs)) = ?k # sorted_list_of_set (f ` set ?rest)"
    unfolding img using lt by (intro sorted_list_of_set_insert_least) auto
  have same: "map (\<lambda>k. (k, filter (\<lambda>y. f y = k) ?rest)) (sorted_list_of_set (f ` set ?rest))
      = map (\<lambda>k. (k, filter (\<lambda>y. f y = k) (x # xs))) (sorted_list_of_set (f ` set ?rest))"
  proof (rule map_cong [OF refl])
    fix k assume "k \<in> set (sorted_list_of_set (f ` set ?rest))"
    then have "k \<noteq> ?k" using lt by auto
    then have "filter (\<lambda>y. f y = k) ?rest = filter (\<lambda>y. f y = k) xs"
      by (auto intro: filter_cong)
    with \<open>k \<noteq> ?k\<close> show "(k, filter (\<lambda>y. f y = k) ?rest) = (k, filter (\<lambda>y. f y = k) (x # xs))"
      by auto
  qed
  have "groupby f (x # xs) = (?k, x # filter (\<lambda>y. f y = ?k) xs) # groupby f ?rest"
    using td by simp
  also have "\<dots> = map (\<lambda>k. (k, filter (\<lambda>y. f y = k) (x # xs)))
                     (?k # sorted_list_of_set (f ` set ?rest))"
    using ih same by simp
  also have "\<dots> = map (\<lambda>k. (k, filter (\<lambda>y. f y = k) (x # xs)))
                     (sorted_list_of_set (f ` set (x # xs)))"
    by (simp only: keys)
  finally show ?case .
qed


lemma set_map_filter_Some:
  "set (List.map_filter f xs) = {y. \<exists>x\<in>set xs. f x = Some y}"
  by (induction xs) (auto split: option.splits)

lemma to_components_by_key:
  "to_components tcd cs
     = concat (map (\<lambda>k. rows_of_group tcd (filter (\<lambda>i. sort_key_of i = k) cs))
                   (sorted_list_of_set (sort_key_of ` set cs)))"
proof -
  have "groupby sort_key_of (sort_key sort_key_of cs)
      = map (\<lambda>k. (k, filter (\<lambda>y. sort_key_of y = k) cs))
            (sorted_list_of_set (sort_key_of ` set cs))"
    using groupby_sorted [of sort_key_of "sort_key sort_key_of cs"]
    by (simp add: sort_key_stable)
  then show ?thesis by (simp add: to_components_def comp_def)
qed

lemma spec_group_order_keys:
  assumes "\<forall>i\<in>set cs. \<forall>g. group_id i = Some g \<longrightarrow> g < sys_maxsize"
  shows "sorted_list_of_set (sort_key_of ` set cs)
     = map (\<lambda>g. case g of None \<Rightarrow> sys_maxsize | Some x \<Rightarrow> x) (spec_group_order cs)"
proof -
  let ?G = "List.map_filter group_id cs"
  let ?L = "sort (remdups ?G) @ (if None \<in> set (map group_id cs) then [sys_maxsize] else [])"
  have G: "set ?G = {g. \<exists>i\<in>set cs. group_id i = Some g}"
    by (auto simp add: set_map_filter_Some)
  have lt: "\<forall>g\<in>set ?G. g < sys_maxsize" using assms G by auto
  have L: "map (\<lambda>g. case g of None \<Rightarrow> sys_maxsize | Some x \<Rightarrow> x) (spec_group_order cs) = ?L"
    by (simp add: spec_group_order_def comp_def)
  have sorted: "sorted ?L" using lt by (auto simp add: sorted_append less_imp_le)
  have distinct: "distinct ?L" using lt by auto
  have set: "set ?L = sort_key_of ` set cs"
  proof (intro equalityI subsetI)
    fix k assume "k \<in> set ?L"
    then consider "k \<in> set ?G" | "k = sys_maxsize" "None \<in> set (map group_id cs)"
      by (auto split: if_splits)
    then show "k \<in> sort_key_of ` set cs"
    proof cases
      case 1
      with G obtain i where "i \<in> set cs" "group_id i = Some k" by auto
      then show ?thesis by (force simp add: sort_key_of_def)
    next
      case 2
      then obtain i where "i \<in> set cs" "group_id i = None" by force
      with 2 show ?thesis by (force simp add: sort_key_of_def)
    qed
  next
    fix k assume "k \<in> sort_key_of ` set cs"
    then obtain i where i: "i \<in> set cs" "k = sort_key_of i" by auto
    show "k \<in> set ?L"
    proof (cases "group_id i")
      case None
      with i show ?thesis by (force simp add: sort_key_of_def)
    next
      case (Some g)
      with i G have "k \<in> set ?G" by (auto simp add: sort_key_of_def)
      then show ?thesis by simp
    qed
  qed
  from sorted distinct have "sorted_list_of_set (set ?L) = ?L"
    by (rule sorted_list_of_set.idem_if_sorted_distinct)
  with set L show ?thesis by simp
qed

lemma spec_group_order_member:
  "g \<in> set (spec_group_order cs) \<Longrightarrow> \<exists>i\<in>set cs. group_id i = g"
  by (auto simp add: spec_group_order_def set_map_filter_Some split: if_splits) metis

lemma filter_key_group:
  assumes "\<forall>i\<in>set cs. \<forall>g. group_id i = Some g \<longrightarrow> g < sys_maxsize"
    and "g \<in> set (spec_group_order cs)"
  shows "filter (\<lambda>i. sort_key_of i = (case g of None \<Rightarrow> sys_maxsize | Some x \<Rightarrow> x)) cs
     = filter (\<lambda>i. group_id i = g) cs"
proof (rule filter_cong [OF refl])
  fix i assume i: "i \<in> set cs"
  from spec_group_order_member [OF assms(2)] obtain j where j: "j \<in> set cs" "group_id j = g"
    by auto
  show "(sort_key_of i = (case g of None \<Rightarrow> sys_maxsize | Some x \<Rightarrow> x)) = (group_id i = g)"
    using assms(1) i j by (cases g; cases "group_id i") (auto simp add: sort_key_of_def)
qed

lemma to_components_spec_layout:
  assumes "\<forall>i\<in>set cs. \<forall>g. group_id i = Some g \<longrightarrow> g < sys_maxsize"
  shows "to_components tcd cs
     = map (\<lambda>r. \<lparr>row_type = 1, components = map tcd r\<rparr>) (spec_layout cs)"
proof -
  let ?mk = "\<lambda>r. \<lparr>row_type = 1, components = map tcd r\<rparr>"
  have "to_components tcd cs
      = concat (map (\<lambda>g. rows_of_group tcd
                            (filter (\<lambda>i. sort_key_of i = (case g of None \<Rightarrow> sys_maxsize | Some x \<Rightarrow> x)) cs))
                    (spec_group_order cs))"
    by (simp add: to_components_by_key spec_group_order_keys [OF assms] comp_def)
  also have "\<dots> = concat (map (\<lambda>g. map ?mk (spec_chunks (filter (\<lambda>i. group_id i = g) cs)))
                              (spec_group_order cs))"
  proof (rule arg_cong [where f = concat], rule map_cong [OF refl])
    fix g assume g: "g \<in> set (spec_group_order cs)"
    from spec_group_order_member [OF g] have ne: "filter (\<lambda>i. group_id i = g) cs \<noteq> []"
      by (auto simp add: filter_empty_conv)
    show "rows_of_group tcd
            (filter (\<lambda>i. sort_key_of i = (case g of None \<Rightarrow> sys_maxsize | Some x \<Rightarrow> x)) cs)
          = map ?mk (spec_chunks (filter (\<lambda>i. group_id i = g) cs))"
      using filter_key_group [OF assms g] rows_of_group_spec [OF ne] by simp
  qed
  also have "\<dots> = map ?mk (spec_layout cs)"
    by (simp add: spec_layout_def map_concat comp_def)
  finally show ?thesis .
qed

lemma spec_chunks_rows:
  "r \<in> set (spec_chunks xs) \<Longrightarrow> 1 \<le> length r \<and> length r \<le> 5"
  by (auto simp add: spec_chunks_def)



text \<open>
  C8. For a view whose group ids are below \<^verbatim>\<open>sys.maxsize\<close> (the key \<^verbatim>\<open>to_components\<close>
  sorts the ungrouped elements by), \<^verbatim>\<open>to_components\<close> yields the rows of the
  specification's layout: the groups in ascending order of their id, the ungrouped elements
  after all of them, each group in the order of the view's children and cut into rows of
  five. Every row has between one and five components. Twelve ungrouped elements give three
  rows of 5, 5 and 2 in the original order; elements of group 1 and ungrouped elements give
  the row of group 1 before the row of the ungrouped ones.
\<close>

theorem to_components_layout:
  assumes "\<forall>i\<in>set cs. \<forall>g. group_id i = Some g \<longrightarrow> g < sys_maxsize"
  shows "to_components tcd cs
           = map (\<lambda>r. \<lparr>row_type = 1, components = map tcd r\<rparr>) (spec_layout cs)
     \<and> (\<forall>r\<in>set (to_components tcd cs). 1 \<le> length (components r) \<and> length (components r) \<le> 5)
     \<and> (length cs = 12 \<and> (\<forall>i\<in>set cs. group_id i = None)
          \<longrightarrow> map components (to_components tcd cs)
                = [map tcd (take 5 cs), map tcd (take 5 (drop 5 cs)), map tcd (drop 10 cs)])
     \<and> ((\<forall>i\<in>set cs. group_id i = Some 1 \<or> group_id i = None)
          \<and> length (filter (\<lambda>i. group_id i = Some 1) cs) = 3
          \<and> length (filter (\<lambda>i. group_id i = None) cs) = 2
          \<longrightarrow> map components (to_components tcd cs)
                = [map tcd (filter (\<lambda>i. group_id i = Some 1) cs),
                   map tcd (filter (\<lambda>i. group_id i = None) cs)])"
proof (intro conjI impI)
  note eq = to_components_spec_layout [OF assms, of tcd]
  show "to_components tcd cs
           = map (\<lambda>r. \<lparr>row_type = 1, components = map tcd r\<rparr>) (spec_layout cs)"
    by (rule eq)
  show "\<forall>r\<in>set (to_components tcd cs). 1 \<le> length (components r) \<and> length (components r) \<le> 5"
    unfolding eq using spec_chunks_rows by (fastforce simp add: spec_layout_def)
  {
    assume a: "length cs = 12 \<and> (\<forall>i\<in>set cs. group_id i = None)"
    then have ne: "cs \<noteq> []" by auto
    from a have mf: "List.map_filter group_id cs = []"
      by (simp add: List.map_filter_def filter_empty_conv)
    from a ne have n: "None \<in> set (map group_id cs)" by (cases cs) auto
    from a have f: "filter (\<lambda>i. group_id i = None) cs = cs" by simp
    have u: "[0..<3] = [0, 1, 2]" by (simp add: upt_rec)
    from a have ch: "spec_chunks cs = [take 5 cs, take 5 (drop 5 cs), drop 10 cs]"
      by (simp add: spec_chunks_def u)
    have "spec_layout cs = [take 5 cs, take 5 (drop 5 cs), drop 10 cs]"
      using mf n f ch by (simp add: spec_layout_def spec_group_order_def)
    then show "map components (to_components tcd cs)
                = [map tcd (take 5 cs), map tcd (take 5 (drop 5 cs)), map tcd (drop 10 cs)]"
      unfolding eq by simp
  }
  {
    assume b: "(\<forall>i\<in>set cs. group_id i = Some 1 \<or> group_id i = None)
          \<and> length (filter (\<lambda>i. group_id i = Some 1) cs) = 3
          \<and> length (filter (\<lambda>i. group_id i = None) cs) = 2"
    let ?one = "filter (\<lambda>i. group_id i = Some 1) cs"
    let ?none = "filter (\<lambda>i. group_id i = None) cs"
    from b have "?one \<noteq> []" "?none \<noteq> []" by auto
    then obtain i j where i: "i \<in> set cs" "group_id i = Some 1"
      and j: "j \<in> set cs" "group_id j = None"
      by (auto simp add: filter_empty_conv)
    have "set (List.map_filter group_id cs) = {1}"
      using b i by (auto simp add: set_map_filter_Some)
    then have "sorted_list_of_set (set (List.map_filter group_id cs)) = [1]" by simp
    then have so: "sort (remdups (List.map_filter group_id cs)) = [1]"
      by (simp add: sorted_list_of_set_sort_remdups)
    from j have n: "None \<in> set (map group_id cs)" by force
    have u: "[0..<Suc 0] = [0]" by simp
    from b have c1: "spec_chunks ?one = [?one]" and c2: "spec_chunks ?none = [?none]"
      by (simp_all add: spec_chunks_def)
    have "spec_layout cs = [?one, ?none]"
      using so n c1 c2 by (simp add: spec_layout_def spec_group_order_def)
    then show "map components (to_components tcd cs) = [map tcd ?one, map tcd ?none]"
      unfolding eq by simp
  }
qed

theorem to_components_layout_witness:
  "map components (to_components custom_id twelve_ungrouped)
     = [[Some ''a'', Some ''b'', Some ''c'', Some ''d'', Some ''e''],
        [Some ''f'', Some ''g'', Some ''h'', Some ''i'', Some ''j''],
        [Some ''k'', Some ''l'']]
   \<and> map components (to_components custom_id grouped_five)
     = [[Some ''b'', Some ''c'', Some ''e''], [Some ''a'', Some ''d'']]"
proof -
  have h1: "\<forall>i\<in>set twelve_ungrouped. \<forall>g. group_id i = Some g \<longrightarrow> g < sys_maxsize"
    and a1: "length twelve_ungrouped = 12 \<and> (\<forall>i\<in>set twelve_ungrouped. group_id i = None)"
    by (simp_all add: twelve_ungrouped_def select_init_def)
  have h2: "\<forall>i\<in>set grouped_five. \<forall>g. group_id i = Some g \<longrightarrow> g < sys_maxsize"
    and a2: "(\<forall>i\<in>set grouped_five. group_id i = Some 1 \<or> group_id i = None)
          \<and> length (filter (\<lambda>i. group_id i = Some 1) grouped_five) = 3
          \<and> length (filter (\<lambda>i. group_id i = None) grouped_five) = 2"
    by (simp_all add: grouped_five_def select_init_def sys_maxsize_def)
  from to_components_layout [OF h1, of custom_id] a1
  have r1: "map components (to_components custom_id twelve_ungrouped)
      = [map custom_id (take 5 twelve_ungrouped), map custom_id (take 5 (drop 5 twelve_ungrouped)),
         map custom_id (drop 10 twelve_ungrouped)]"
    by blast
  from to_components_layout [OF h2, of custom_id] a2
  have r2: "map components (to_components custom_id grouped_five)
      = [map custom_id (filter (\<lambda>i. group_id i = Some 1) grouped_five),
         map custom_id (filter (\<lambda>i. group_id i = None) grouped_five)]"
    by blast
  show ?thesis
    unfolding r1 r2 by (simp add: twelve_ungrouped_def grouped_five_def select_init_def custom_id_def)
qed

section \<open>Reconciliation\<close>

lemma old_state_miss:
  "\<forall>r\<in>set rs. is_dispatchable (h r) \<longrightarrow> item_key (h r) \<noteq> k \<Longrightarrow> old_state h rs m k = m k"
  by (induction rs arbitrary: m) auto

lemma old_state_sound:
  "old_state h rs m k = Some r \<Longrightarrow>
     m k = Some r \<or> (r \<in> set rs \<and> is_dispatchable (h r) \<and> item_key (h r) = k)"
proof (induction rs arbitrary: m)
  case Nil
  then show ?case by simp
next
  case (Cons a rs)
  let ?m = "if is_dispatchable (h a) then m(item_key (h a) \<mapsto> a) else m"
  from Cons.prems have "old_state h rs ?m k = Some r" by simp
  from Cons.IH [OF this]
  consider "?m k = Some r" | "r \<in> set rs \<and> is_dispatchable (h r) \<and> item_key (h r) = k"
    by blast
  then show ?case
  proof cases
    case 1
    then show ?thesis by (auto split: if_splits)
  next
    case 2
    then show ?thesis by simp
  qed
qed

lemma old_state_hit:
  "r \<in> set rs \<Longrightarrow> is_dispatchable (h r) \<Longrightarrow>
     \<exists>r'\<in>set rs. is_dispatchable (h r') \<and> item_key (h r') = item_key (h r)
        \<and> old_state h rs m (item_key (h r)) = Some r'"
proof (induction rs arbitrary: m r)
  case Nil
  then show ?case by simp
next
  case (Cons a rs)
  let ?m = "if is_dispatchable (h a) then m(item_key (h a) \<mapsto> a) else m"
  show ?case
  proof (cases "\<exists>r''\<in>set rs. is_dispatchable (h r'') \<and> item_key (h r'') = item_key (h r)")
    case True
    then obtain r'' where r'': "r'' \<in> set rs" "is_dispatchable (h r'')"
      "item_key (h r'') = item_key (h r)" by blast
    from Cons.IH [OF r''(1) r''(2), of ?m] r''(3) show ?thesis by auto
  next
    case False
    then have miss: "old_state h rs ?m (item_key (h r)) = ?m (item_key (h r))"
      by (intro old_state_miss) auto
    from False Cons.prems have "r = a" by auto
    with miss Cons.prems show ?thesis by auto
  qed
qed

lemma lookup_older_Some:
  "lookup_older old c = Some (r, l) \<Longrightarrow> c = LeafComponent l \<and> old (ctype l, ccustom_id l) = Some r"
  by (auto simp add: lookup_older_def split: component.splits option.splits)

lemma refresh_loop_length:
  "length (snd (refresh_loop mk old cs w acc)) = length acc + length cs"
  by (induction cs arbitrary: w acc) (auto split: option.splits)

lemma refresh_loop_prefix:
  "n < length acc \<Longrightarrow> snd (refresh_loop mk old cs w acc) ! n = acc ! n"
  by (induction cs arbitrary: w acc) (auto split: option.splits simp add: nth_append)

lemma refresh_loop_frame:
  "view_heap (fst (refresh_loop mk old cs w acc)) = view_heap w
   \<and> views (fst (refresh_loop mk old cs w acc)) = views w
   \<and> synced_message_views (fst (refresh_loop mk old cs w acc)) = synced_message_views w
   \<and> tasks (fst (refresh_loop mk old cs w acc)) = tasks w"
  by (induction cs arbitrary: w acc) (auto split: option.splits)

lemma refresh_loop_next:
  "next_item w \<le> next_item (fst (refresh_loop mk old cs w acc))"
proof (induction cs arbitrary: w acc)
  case Nil
  then show ?case by simp
next
  case (Cons c cs)
  show ?case
  proof (cases "lookup_older old c")
    case None
    then show ?thesis
      using Cons [of "w\<lparr>item_heap := (item_heap w)(next_item w := mk c),
                         next_item := Suc (next_item w)\<rparr>" "acc @ [next_item w]"]
      by simp
  next
    case (Some a)
    obtain older l where a: "a = (older, l)" by (cases a)
    from Some a show ?thesis
      using Cons [of "w\<lparr>item_heap := (item_heap w)(older := refresh_component (item_heap w older) l)\<rparr>"
                     "acc @ [older]"]
      by simp
  qed
qed

lemma refresh_loop_fields:
  "r < next_item w \<Longrightarrow>
     callback (item_heap (fst (refresh_loop mk old cs w acc)) r) = callback (item_heap w r)
   \<and> selected_values (item_heap (fst (refresh_loop mk old cs w acc)) r)
       = selected_values (item_heap w r)
   \<and> group_id (item_heap (fst (refresh_loop mk old cs w acc)) r) = group_id (item_heap w r)
   \<and> item_view (item_heap (fst (refresh_loop mk old cs w acc)) r) = item_view (item_heap w r)
   \<and> dispatchable (item_heap (fst (refresh_loop mk old cs w acc)) r)
       = dispatchable (item_heap w r)"
proof (induction cs arbitrary: w acc)
  case Nil
  then show ?case by simp
next
  case (Cons c cs)
  show ?case
  proof (cases "lookup_older old c")
    case None
    let ?w1 = "w\<lparr>item_heap := (item_heap w)(next_item w := mk c), next_item := Suc (next_item w)\<rparr>"
    from Cons.prems have "r < next_item ?w1" by simp
    from Cons.IH [OF this, of "acc @ [next_item w]"] None Cons.prems show ?thesis by simp
  next
    case (Some a)
    obtain older l where a: "a = (older, l)" by (cases a)
    let ?w1 = "w\<lparr>item_heap := (item_heap w)(older := refresh_component (item_heap w older) l)\<rparr>"
    from Cons.prems have "r < next_item ?w1" by simp
    from Cons.IH [OF this, of "acc @ [older]"] Some a show ?thesis
      by (simp add: refresh_component_def)
  qed
qed

lemma refresh_loop_key:
  "\<forall>k r. old k = Some r \<longrightarrow> r < next_item w \<and> item_key (item_heap w r) = k \<Longrightarrow>
   r < next_item w \<Longrightarrow>
     item_key (item_heap (fst (refresh_loop mk old cs w acc)) r) = item_key (item_heap w r)"
proof (induction cs arbitrary: w acc)
  case Nil
  then show ?case by simp
next
  case (Cons c cs)
  show ?case
  proof (cases "lookup_older old c")
    case None
    let ?w1 = "w\<lparr>item_heap := (item_heap w)(next_item w := mk c), next_item := Suc (next_item w)\<rparr>"
    have inv: "\<forall>k r. old k = Some r \<longrightarrow> r < next_item ?w1 \<and> item_key (item_heap ?w1 r) = k"
      using Cons.prems(1) by (auto simp add: less_Suc_eq)
    from Cons.prems(2) have "r < next_item ?w1" by simp
    from Cons.IH [OF inv this, of "acc @ [next_item w]"] None Cons.prems(2) show ?thesis by simp
  next
    case (Some a)
    obtain older l where a: "a = (older, l)" by (cases a)
    from lookup_older_Some Some a have o: "old (ctype l, ccustom_id l) = Some older" by blast
    let ?w1 = "w\<lparr>item_heap := (item_heap w)(older := refresh_component (item_heap w older) l)\<rparr>"
    have k: "item_key (refresh_component (item_heap w older) l) = item_key (item_heap w older)"
      using Cons.prems(1) o
      by (auto simp add: refresh_component_def item_key_def item_type_def custom_id_def)
    have inv: "\<forall>k r. old k = Some r \<longrightarrow> r < next_item ?w1 \<and> item_key (item_heap ?w1 r) = k"
      using Cons.prems(1) k by auto
    from Cons.prems(2) have "r < next_item ?w1" by simp
    from Cons.IH [OF inv this, of "acc @ [older]"] Some a k show ?thesis by simp
  qed
qed

lemma refresh_loop_hit:
  "n < length cs \<Longrightarrow> lookup_older old (cs ! n) = Some (r, l) \<Longrightarrow>
     snd (refresh_loop mk old cs w acc) ! (length acc + n) = r"
proof (induction cs arbitrary: w acc n)
  case Nil
  then show ?case by simp
next
  case (Cons c cs)
  show ?case
  proof (cases n)
    case 0
    with Cons.prems show ?thesis
      by (simp add: refresh_loop_prefix)
  next
    case (Suc m)
    with Cons.prems have m: "m < length cs" "lookup_older old (cs ! m) = Some (r, l)" by auto
    show ?thesis
    proof (cases "lookup_older old c")
      case None
      from Cons.IH [OF m, of _ "acc @ [next_item w]"] None Suc show ?thesis by simp
    next
      case (Some a)
      obtain older l' where a: "a = (older, l')" by (cases a)
      from Cons.IH [OF m, of _ "acc @ [older]"] Some a Suc show ?thesis by simp
    qed
  qed
qed

lemma refresh_loop_stable:
  "\<forall>k r. old k = Some r \<longrightarrow> r \<noteq> x \<Longrightarrow> x < next_item w \<Longrightarrow>
     item_heap (fst (refresh_loop mk old cs w acc)) x = item_heap w x"
proof (induction cs arbitrary: w acc)
  case Nil
  then show ?case by simp
next
  case (Cons c cs)
  show ?case
  proof (cases "lookup_older old c")
    case None
    let ?w1 = "w\<lparr>item_heap := (item_heap w)(next_item w := mk c), next_item := Suc (next_item w)\<rparr>"
    from Cons.prems(2) have "x < next_item ?w1" by simp
    from Cons.IH [OF Cons.prems(1) this, of "acc @ [next_item w]"] None Cons.prems(2)
    show ?thesis by simp
  next
    case (Some a)
    obtain older l where a: "a = (older, l)" by (cases a)
    from lookup_older_Some Some a have o: "old (ctype l, ccustom_id l) = Some older" by blast
    with Cons.prems(1) have ne: "older \<noteq> x" by blast
    let ?w1 = "w\<lparr>item_heap := (item_heap w)(older := refresh_component (item_heap w older) l)\<rparr>"
    from Cons.prems(2) have "x < next_item ?w1" by simp
    from Cons.IH [OF Cons.prems(1) this, of "acc @ [older]"] Some a ne show ?thesis by simp
  qed
qed

lemma refresh_loop_miss:
  "\<forall>k r. old k = Some r \<longrightarrow> r < next_item w \<Longrightarrow>
   n < length cs \<Longrightarrow> lookup_older old (cs ! n) = None \<Longrightarrow>
     next_item w \<le> snd (refresh_loop mk old cs w acc) ! (length acc + n)
   \<and> item_heap (fst (refresh_loop mk old cs w acc))
        (snd (refresh_loop mk old cs w acc) ! (length acc + n)) = mk (cs ! n)"
proof (induction cs arbitrary: w acc n)
  case Nil
  then show ?case by simp
next
  case (Cons c cs)
  let ?w1 = "w\<lparr>item_heap := (item_heap w)(next_item w := mk c), next_item := Suc (next_item w)\<rparr>"
  have inv1: "\<forall>k r. old k = Some r \<longrightarrow> r < next_item ?w1"
    using Cons.prems(1) by (auto simp add: less_Suc_eq)
  show ?case
  proof (cases n)
    case 0
    with Cons.prems have none: "lookup_older old c = None" by simp
    have x: "snd (refresh_loop mk old cs ?w1 (acc @ [next_item w])) ! length acc = next_item w"
      by (simp add: refresh_loop_prefix)
    have "\<forall>k r. old k = Some r \<longrightarrow> r \<noteq> next_item w" using Cons.prems(1) by auto
    then have "item_heap (fst (refresh_loop mk old cs ?w1 (acc @ [next_item w]))) (next_item w)
        = item_heap ?w1 (next_item w)"
      by (rule refresh_loop_stable) simp
    with x none 0 show ?thesis by simp
  next
    case (Suc m)
    with Cons.prems have m: "m < length cs" "lookup_older old (cs ! m) = None" by auto
    show ?thesis
    proof (cases "lookup_older old c")
      case None
      from Cons.IH [OF inv1 m, of "acc @ [next_item w]"] None Suc show ?thesis by simp
    next
      case (Some a)
      obtain older l' where a: "a = (older, l')" by (cases a)
      let ?w2 = "w\<lparr>item_heap := (item_heap w)(older := refresh_component (item_heap w older) l')\<rparr>"
      have inv2: "\<forall>k r. old k = Some r \<longrightarrow> r < next_item ?w2" using Cons.prems(1) by simp
      from Cons.IH [OF inv2 m, of "acc @ [older]"] Some a Suc show ?thesis by simp
    qed
  qed
qed


lemma old_state_append:
  "old_state h (xs @ ys) m = old_state h ys (old_state h xs m)"
  by (induction xs arbitrary: m) simp_all

lemma old_state_last:
  "is_dispatchable (h E) \<Longrightarrow>
   \<forall>r\<in>set post. is_dispatchable (h r) \<longrightarrow> item_key (h r) \<noteq> item_key (h E) \<Longrightarrow>
     old_state h (pre @ E # post) m (item_key (h E)) = Some E"
  by (simp add: old_state_append old_state_miss)

text \<open>
  C4, as the claim states it, fails for a view that holds two dispatchable elements with
  one key: the dict comprehension of \<^verbatim>\<open>refresh\<close> keeps the later one. With the children
  0 and 1, both selects \<open>''a''\<close>, and a component with that key first, the new list is 1
  and a new object: the element 0 is not in it.
\<close>

theorem refresh_duplicate_key_counterexample:
  "children (view_heap duplicate_key_world 6) = [0, 1]
   \<and> is_dispatchable (item_heap duplicate_key_world 0)
   \<and> item_key (item_heap duplicate_key_world 0) = (3, Some ''a'')
   \<and> walk_all_components example_components ! 0 = LeafComponent example_select_leaf
   \<and> (ctype example_select_leaf, ccustom_id example_select_leaf) = (3, Some ''a'')
   \<and> children (view_heap (refresh example_from_component example_from_component
                             duplicate_key_world 6 example_components) 6) = [1, 3]"
  by (simp add: duplicate_key_world_def example_world_def new_view_def select_init_def
      is_dispatchable_def item_key_def item_type_def custom_id_def refresh_def
      lookup_older_def example_components_def example_select_leaf_def
      example_button_leaf_def Let_def)

text \<open>
  C4, amended. Let a view hold an element \<open>E\<close>, dispatchable and the last dispatchable
  child with its key (so also when it is the only one), the children being objects
  allocated before the call. When the flattened components
  given to \<^verbatim>\<open>refresh\<close> have at position \<open>n\<close> a component with the key of \<open>E\<close>, the new
  list of children has \<open>E\<close> itself at position \<open>n\<close>, with its handler, its selected values
  and its key as before. The new list has one element per flattened component, and at
  every position whose component matches no dispatchable child there is a new object, not
  among the old children, built from the component. The loop that builds the list leaves
  every view as it was: the view gets the finished list in one assignment, and nothing else
  of it changes. The registry is not touched.
\<close>

theorem refresh_preserves_identity:
  assumes "children (view_heap w v) = pre @ E # post"
    and "is_dispatchable (item_heap w E)"
    and "\<forall>r\<in>set post.
           is_dispatchable (item_heap w r) \<longrightarrow> item_key (item_heap w r) \<noteq> item_key (item_heap w E)"
    and "\<forall>r\<in>set (children (view_heap w v)). r < next_item w"
    and "n < length (walk_all_components cs)"
    and "walk_all_components cs ! n = LeafComponent d"
    and "(ctype d, ccustom_id d) = item_key (item_heap w E)"
  shows "children (view_heap (refresh button_from item_from w v cs) v) ! n = E
     \<and> length (children (view_heap (refresh button_from item_from w v cs) v))
         = length (walk_all_components cs)
     \<and> callback (item_heap (refresh button_from item_from w v cs) E) = callback (item_heap w E)
     \<and> selected_values (item_heap (refresh button_from item_from w v cs) E)
         = selected_values (item_heap w E)
     \<and> item_key (item_heap (refresh button_from item_from w v cs) E) = item_key (item_heap w E)
     \<and> (\<forall>m<length (walk_all_components cs).
           (\<forall>l. walk_all_components cs ! m = LeafComponent l \<longrightarrow>
              (\<forall>r\<in>set (children (view_heap w v)).
                 is_dispatchable (item_heap w r) \<longrightarrow> item_key (item_heap w r) \<noteq> (ctype l, ccustom_id l)))
           \<longrightarrow> next_item w \<le> children (view_heap (refresh button_from item_from w v cs) v) ! m
             \<and> children (view_heap (refresh button_from item_from w v cs) v) ! m
                 \<notin> set (children (view_heap w v))
             \<and> item_heap (refresh button_from item_from w v cs)
                 (children (view_heap (refresh button_from item_from w v cs) v) ! m)
                 = component_to_item button_from item_from (walk_all_components cs ! m))
     \<and> view_heap (fst (refresh_loop (component_to_item button_from item_from)
                          (old_state (item_heap w) (children (view_heap w v)) Map.empty)
                          (walk_all_components cs) w []))
         = view_heap w
     \<and> view_heap (refresh button_from item_from w v cs)
         = (view_heap w)(v := (view_heap w v)
              \<lparr>children := snd (refresh_loop (component_to_item button_from item_from)
                                  (old_state (item_heap w) (children (view_heap w v)) Map.empty)
                                  (walk_all_components cs) w [])\<rparr>)
     \<and> views (refresh button_from item_from w v cs) = views w
     \<and> synced_message_views (refresh button_from item_from w v cs) = synced_message_views w"
proof -
  let ?h = "item_heap w"
  let ?kids = "children (view_heap w v)"
  let ?flat = "walk_all_components cs"
  let ?old = "old_state ?h ?kids Map.empty"
  let ?mk = "component_to_item button_from item_from"
  let ?loop = "refresh_loop ?mk ?old ?flat w []"
  let ?w' = "refresh button_from item_from w v cs"
  have kids': "children (view_heap ?w' v) = snd ?loop"
    and heap': "item_heap ?w' = item_heap (fst ?loop)"
    and views': "views ?w' = views (fst ?loop)"
    and synced': "synced_message_views ?w' = synced_message_views (fst ?loop)"
    by (simp_all add: refresh_def Let_def split_def)
  have inv: "\<forall>k r. ?old k = Some r \<longrightarrow> r < next_item w \<and> item_key (?h r) = k"
    using old_state_sound [of ?h ?kids Map.empty] assms(4) by fastforce
  then have inv': "\<forall>k r. ?old k = Some r \<longrightarrow> r < next_item w" by blast
  from assms(1) have mem: "E \<in> set ?kids" by simp
  from old_state_last [OF assms(2) assms(3), of pre Map.empty] assms(1)
  have "?old (item_key (?h E)) = Some E" by simp
  with assms(6) assms(7) have look: "lookup_older ?old (?flat ! n) = Some (E, d)"
    by (simp add: lookup_older_def)
  from mem assms(4) have E: "E < next_item w" by blast
  have c1: "children (view_heap ?w' v) ! n = E"
    using refresh_loop_hit [OF assms(5) look, of ?mk w "[]"] kids' by simp
  have c2: "length (children (view_heap ?w' v)) = length ?flat"
    using refresh_loop_length [of ?mk ?old ?flat w "[]"] kids' by simp
  have c3: "callback (item_heap ?w' E) = callback (?h E)"
    and c4: "selected_values (item_heap ?w' E) = selected_values (?h E)"
    using refresh_loop_fields [OF E, of ?mk ?old ?flat "[]"] heap' by simp_all
  have c5: "item_key (item_heap ?w' E) = item_key (?h E)"
    using refresh_loop_key [OF inv E, of ?mk ?flat "[]"] heap' by simp
  have c6: "\<forall>m<length ?flat.
           (\<forall>l. ?flat ! m = LeafComponent l \<longrightarrow>
              (\<forall>r\<in>set ?kids. is_dispatchable (?h r) \<longrightarrow> item_key (?h r) \<noteq> (ctype l, ccustom_id l)))
           \<longrightarrow> next_item w \<le> children (view_heap ?w' v) ! m
             \<and> children (view_heap ?w' v) ! m \<notin> set ?kids
             \<and> item_heap ?w' (children (view_heap ?w' v) ! m) = ?mk (?flat ! m)"
  proof (intro allI impI)
    fix m
    assume m: "m < length ?flat"
      and nomatch: "\<forall>l. ?flat ! m = LeafComponent l \<longrightarrow>
              (\<forall>r\<in>set ?kids. is_dispatchable (?h r) \<longrightarrow> item_key (?h r) \<noteq> (ctype l, ccustom_id l))"
    have none: "lookup_older ?old (?flat ! m) = None"
    proof (cases "?flat ! m")
      case (ActionRowComponent x)
      then show ?thesis by (simp add: lookup_older_def)
    next
      case (LeafComponent l)
      with nomatch have "?old (ctype l, ccustom_id l) = Map.empty (ctype l, ccustom_id l)"
        by (intro old_state_miss) blast
      with LeafComponent show ?thesis by (simp add: lookup_older_def)
    qed
    from refresh_loop_miss [OF inv' m none, of ?mk "[]"] kids' heap'
    have fresh: "next_item w \<le> children (view_heap ?w' v) ! m"
      and built: "item_heap ?w' (children (view_heap ?w' v) ! m) = ?mk (?flat ! m)"
      by simp_all
    from fresh assms(4) have "children (view_heap ?w' v) ! m \<notin> set ?kids" by fastforce
    with fresh built
    show "next_item w \<le> children (view_heap ?w' v) ! m
             \<and> children (view_heap ?w' v) ! m \<notin> set ?kids
             \<and> item_heap ?w' (children (view_heap ?w' v) ! m) = ?mk (?flat ! m)"
      by simp
  qed
  have c7: "views ?w' = views w" and c8: "synced_message_views ?w' = synced_message_views w"
    using refresh_loop_frame [of ?mk ?old ?flat w "[]"] views' synced' by simp_all
  have c9: "view_heap (fst ?loop) = view_heap w"
    using refresh_loop_frame [of ?mk ?old ?flat w "[]"] by simp
  have c10: "view_heap ?w' = (view_heap w)(v := (view_heap w v)\<lparr>children := snd ?loop\<rparr>)"
    using c9 by (simp add: refresh_def Let_def split_def)
  from c1 c2 c3 c4 c5 c6 c7 c8 c9 c10 show ?thesis by blast
qed

theorem refresh_preserves_identity_witness:
  "children (view_heap duplicate_key_world 6) = [0] @ 1 # []
   \<and> is_dispatchable (item_heap duplicate_key_world 1)
   \<and> item_key (item_heap duplicate_key_world 1) = (3, Some ''a'')
   \<and> walk_all_components example_components
       = [LeafComponent example_select_leaf, LeafComponent example_button_leaf]
   \<and> children (view_heap (refresh example_from_component example_from_component
                             duplicate_key_world 6 example_components) 6) ! 0 = 1
   \<and> length (children (view_heap (refresh example_from_component example_from_component
                             duplicate_key_world 6 example_components) 6)) = 2
   \<and> 3 \<le> children (view_heap (refresh example_from_component example_from_component
                             duplicate_key_world 6 example_components) 6) ! 1
   \<and> item_heap (refresh example_from_component example_from_component
                   duplicate_key_world 6 example_components)
        (children (view_heap (refresh example_from_component example_from_component
                             duplicate_key_world 6 example_components) 6) ! 1)
       = example_from_component (LeafComponent example_button_leaf)"
proof -
  let ?w = duplicate_key_world
  let ?w' = "refresh example_from_component example_from_component ?w 6 example_components"
  have kids: "children (view_heap ?w 6) = [0] @ 1 # []"
    and key: "item_key (item_heap ?w 1) = (3, Some ''a'')"
    and key0: "item_key (item_heap ?w 0) = (3, Some ''a'')"
    and disp: "is_dispatchable (item_heap ?w 1)"
    and nxt: "next_item ?w = 3"
    by (simp_all add: duplicate_key_world_def ex_defs)
  have flat: "walk_all_components example_components
       = [LeafComponent example_select_leaf, LeafComponent example_button_leaf]"
    by (simp add: example_components_def)
  have a3: "\<forall>r\<in>set []. is_dispatchable (item_heap ?w r)
              \<longrightarrow> item_key (item_heap ?w r) \<noteq> item_key (item_heap ?w 1)"
    by simp
  have a4: "\<forall>r\<in>set (children (view_heap ?w 6)). r < next_item ?w" using kids nxt by simp
  have a5: "0 < length (walk_all_components example_components)" using flat by simp
  have a6: "walk_all_components example_components ! 0 = LeafComponent example_select_leaf"
    using flat by simp
  have a7: "(ctype example_select_leaf, ccustom_id example_select_leaf) = item_key (item_heap ?w 1)"
    using key by (simp add: example_select_leaf_def)
  note t = refresh_preserves_identity [OF kids disp a3 a4 a5 a6 a7,
      of example_from_component example_from_component]
  have m1: "1 < length (walk_all_components example_components)" using flat by simp
  have nomatch: "\<forall>l. walk_all_components example_components ! 1 = LeafComponent l \<longrightarrow>
              (\<forall>r\<in>set (children (view_heap ?w 6)).
                 is_dispatchable (item_heap ?w r) \<longrightarrow> item_key (item_heap ?w r) \<noteq> (ctype l, ccustom_id l))"
    using flat kids key key0 by (simp add: example_button_leaf_def)
  from t m1 nomatch
  have fresh: "next_item ?w \<le> children (view_heap ?w' 6) ! 1"
    and built: "item_heap ?w' (children (view_heap ?w' 6) ! 1)
       = component_to_item example_from_component example_from_component
           (walk_all_components example_components ! 1)"
    by blast+
  have mk: "component_to_item example_from_component example_from_component
           (walk_all_components example_components ! 1)
         = example_from_component (LeafComponent example_button_leaf)"
    using flat by (simp add: component_to_item_def)
  from t have first: "children (view_heap ?w' 6) ! 0 = 1"
    and len: "length (children (view_heap ?w' 6)) = length (walk_all_components example_components)"
    by blast+
  show ?thesis using kids key disp flat first len fresh built mk nxt by simp
qed

end
